theory Spec2Isabelle
  imports Main "HOL-Library.Signed_Division"
begin

section \<open>The scull character driver (src/scull/scull.c)\<close>

text \<open>
  A shallow embedding of the storage engine of \<^verbatim>\<open>scull.c\<close>: the segment chain of a
  device, the segment locator \<^verbatim>\<open>scull_follow\<close>, \<^verbatim>\<open>scull_trim\<close>, \<^verbatim>\<open>scull_read\<close>,
  \<^verbatim>\<open>scull_write\<close>, \<^verbatim>\<open>scull_open\<close> and \<^verbatim>\<open>scull_init\<close>.

  Conventions of the model.
  \<^item> C integers are values of type \<^typ>\<open>int\<close>; every conversion the C text performs is
    written out with \<open>to_int\<close>, \<open>to_long\<close> and \<open>to_ulong\<close> (the LP64 ABI of a 64-bit
    Linux kernel: \<^verbatim>\<open>int\<close> has 32 bits, \<^verbatim>\<open>long\<close>, \<^verbatim>\<open>loff_t\<close>, \<^verbatim>\<open>ssize_t\<close> have 64 bits,
    \<^verbatim>\<open>size_t\<close> and \<^verbatim>\<open>unsigned long\<close> are unsigned 64-bit; signed arithmetic wraps, as the
    kernel is built with \<^verbatim>\<open>-fno-strict-overflow\<close>). \<^verbatim>\<open>/\<close> and \<^verbatim>\<open>%\<close> truncate towards zero
    (\<open>sdiv\<close>, \<open>smod\<close>).
  \<^item> A run of the C code that divides by zero, indexes an array outside its bounds or
    enters \<^verbatim>\<open>while (n--)\<close> with a negative \<^verbatim>\<open>n\<close> has no defined result: the model
    returns \<open>None\<close> there.
  \<^item> The linked list of \<^verbatim>\<open>struct scull_qset\<close> nodes is a HOL list (the \<^verbatim>\<open>next\<close> pointer of
    a node is the tail of the list); a pointer to a node is its position in the chain.
  \<^item> What the kernel supplies is an input of the model: whether
    \<^verbatim>\<open>mutex_lock_interruptible\<close> obtained the lock, whether each \<^verbatim>\<open>kzalloc\<close> succeeds, and
    how many bytes of the user buffer are accessible to \<^verbatim>\<open>copy_to_user\<close> and
    \<^verbatim>\<open>copy_from_user\<close>.
\<close>

subsection \<open>C integer conversions and error numbers\<close>

definition to_int :: "int \<Rightarrow> int" where
  "to_int x = (x + 2 ^ 31) mod 2 ^ 32 - 2 ^ 31"

definition to_long :: "int \<Rightarrow> int" where
  "to_long x = (x + 2 ^ 63) mod 2 ^ 64 - 2 ^ 63"

definition to_ulong :: "int \<Rightarrow> int" where
  "to_ulong x = x mod 2 ^ 64"

text \<open>The error numbers of the Linux headers.\<close>

definition ERESTARTSYS :: int where "ERESTARTSYS = 512"
definition ENOMEM :: int where "ENOMEM = 12"
definition EFAULT :: int where "EFAULT = 14"

subsection \<open>Data model\<close>

text \<open>
  \<^verbatim>\<open>struct scull_qset { void **data; struct scull_qset *next; }\<close>: the field \<^verbatim>\<open>data\<close> is
  \<^verbatim>\<open>NULL\<close> (\<open>None\<close>) or an array of pointers, each \<^verbatim>\<open>NULL\<close> or a quantum (an array of
  \<^verbatim>\<open>char\<close>).
\<close>

type_synonym scull_qset = "string option list option"

text \<open>
  \<^verbatim>\<open>struct scull_dev\<close>. The fields \<^verbatim>\<open>access_key\<close> and \<^verbatim>\<open>cdev\<close> are used by none of the
  modelled functions; \<^verbatim>\<open>lock\<close> is the input \<open>locked\<close> of each operation. The field
  \<^verbatim>\<open>size\<close> is \<open>size_dev\<close> here (\<open>size\<close> is a constant of HOL).
\<close>

record scull_dev =
  data :: "scull_qset list"
  quantum :: int
  qset :: int
  size_dev :: int

text \<open>
  The module parameters (lines 15-25). Their defaults are macros of \<^verbatim>\<open>scull.h\<close>, which is
  not among the sources, and a parameter can be set when the module is loaded: they
  are inputs here.
\<close>

record scull_params =
  scull_major :: int
  scull_minor :: int
  scull_quantum :: int
  scull_qset :: int
  scull_num_devs :: int

subsection \<open>Kernel services\<close>

text \<open>
  The allocator: the outcomes of the \<^verbatim>\<open>kzalloc\<close> calls to come, in order (\<open>True\<close>: the call
  returns zeroed memory, \<open>False\<close>: it returns \<^verbatim>\<open>NULL\<close>).
\<close>

type_synonym kmem = "nat \<Rightarrow> bool"

definition kzalloc :: "kmem \<Rightarrow> bool \<times> kmem" where
  "kzalloc m = (m 0, \<lambda>k. m (Suc k))"

text \<open>
  \<^verbatim>\<open>copy_to_user(to, from, n)\<close> with \<open>ubuf\<close> writable bytes at \<^verbatim>\<open>to\<close>: the number of bytes
  that could not be copied, and the bytes that reached user space.
\<close>

definition copy_to_user :: "nat \<Rightarrow> string \<Rightarrow> nat \<times> string" where
  "copy_to_user ubuf src = (length src - ubuf, take ubuf src)"

text \<open>
  \<^verbatim>\<open>copy_from_user(to, from, n)\<close> where \<open>buf\<close> holds the readable bytes at \<^verbatim>\<open>from\<close>: the
  number of bytes that could not be copied, and the \<open>n\<close> bytes stored at \<^verbatim>\<open>to\<close> (the
  kernel pads what it could not read with zero bytes).
\<close>

definition copy_from_user :: "string \<Rightarrow> nat \<Rightarrow> nat \<times> string" where
  "copy_from_user buf n = (n - length buf, take n buf @ replicate (n - length buf) (CHR 0x00))"

subsection \<open>\<^verbatim>\<open>scull_trim\<close> (lines 186-208) and \<^verbatim>\<open>scull_open\<close> (lines 236-252)\<close>

text \<open>
  The loop of lines 191-201 over the chain from \<^verbatim>\<open>dptr\<close> on. It hands every quantum,
  every slot array and every node to \<^verbatim>\<open>kfree\<close> and assigns no field of the device, so
  the model keeps only whether the loop is defined: it reads the slots
  \<^verbatim>\<open>0 .. qset - 1\<close> of every slot array, and on an array of fewer slots the C code reads
  outside it (\<open>False\<close>).
\<close>

fun trim_loop :: "int \<Rightarrow> scull_qset list \<Rightarrow> bool" where
  "trim_loop qset' [] = True"
| "trim_loop qset' (None # nxt) = trim_loop qset' nxt"
| "trim_loop qset' (Some slots # nxt) = (qset' \<le> int (length slots) \<and> trim_loop qset' nxt)"

text \<open>The device after \<^verbatim>\<open>scull_trim\<close>: the four assignments of lines 202-205.\<close>

definition scull_trim :: "scull_params \<Rightarrow> scull_dev \<Rightarrow> scull_dev option" where
  "scull_trim p dev =
     (if trim_loop (qset dev) (data dev) then
        Some (dev\<lparr>size_dev := 0, quantum := scull_quantum p, qset := scull_qset p, data := []\<rparr>)
      else None)"

text \<open>
  \<^verbatim>\<open>scull_open\<close>: \<open>wronly\<close> is \<^verbatim>\<open>(filp->f_flags & O_ACCMODE) == O_WRONLY\<close>. The result is
  the return value and the device.
\<close>

definition scull_open ::
  "scull_params \<Rightarrow> bool \<Rightarrow> bool \<Rightarrow> scull_dev \<Rightarrow> (int \<times> scull_dev) option" where
  "scull_open p wronly locked dev =
     (if wronly then
        (if \<not> locked then Some (- ERESTARTSYS, dev)
         else (case scull_trim p dev of None \<Rightarrow> None | Some dev' \<Rightarrow> Some (0, dev')))
      else Some (0, dev))"

text \<open>\<^verbatim>\<open>scull_release\<close> (lines 254-257) returns 0 and touches nothing.\<close>

definition scull_release :: "scull_dev \<Rightarrow> int \<times> scull_dev" where
  "scull_release dev = (0, dev)"

subsection \<open>\<^verbatim>\<open>scull_follow\<close> (lines 210-234)\<close>

text \<open>
  The \<^verbatim>\<open>while (n--)\<close> loop, at a node \<^verbatim>\<open>dptr\<close> whose successors are \<open>nxt\<close>: whether the
  loop reached its end (\<open>False\<close>: a \<^verbatim>\<open>kzalloc\<close> failed and the function returns
  \<^verbatim>\<open>NULL\<close>), the successors of \<^verbatim>\<open>dptr\<close> afterwards and the allocator. A node that
  \<^verbatim>\<open>kzalloc\<close> returns is zeroed: its \<^verbatim>\<open>data\<close> is \<^verbatim>\<open>NULL\<close> and it has no successor.
\<close>

fun follow_loop :: "scull_qset list \<Rightarrow> nat \<Rightarrow> kmem \<Rightarrow> bool \<times> scull_qset list \<times> kmem" where
  "follow_loop nxt 0 m = (True, nxt, m)"
| "follow_loop [] (Suc n) m =
     (case kzalloc m of
        (False, m') \<Rightarrow> (False, [], m')
      | (True, m') \<Rightarrow>
          (case follow_loop [] n m' of (ok, nxt', m'') \<Rightarrow> (ok, None # nxt', m'')))"
| "follow_loop (q # nxt) (Suc n) m =
     (case follow_loop nxt n m of (ok, nxt', m') \<Rightarrow> (ok, q # nxt', m'))"

text \<open>
  The result of \<open>scull_follow\<close>: the node found (its position in the chain, \<open>None\<close> for
  \<^verbatim>\<open>NULL\<close>), the device and the allocator.
\<close>

definition scull_follow ::
  "scull_dev \<Rightarrow> int \<Rightarrow> kmem \<Rightarrow> (nat option \<times> scull_dev \<times> kmem) option" where
  "scull_follow dev n m =
     (case data dev of
        [] \<Rightarrow>
          (case kzalloc m of
             (False, m') \<Rightarrow> Some (None, dev, m')
           | (True, m') \<Rightarrow>
               if n < 0 then None
               else (case follow_loop [] (nat n) m' of
                       (ok, nxt, m'') \<Rightarrow>
                         Some (if ok then Some (nat n) else None,
                               dev\<lparr>data := None # nxt\<rparr>, m'')))
      | q # nxt0 \<Rightarrow>
          if n < 0 then None
          else (case follow_loop nxt0 (nat n) m of
                  (ok, nxt, m') \<Rightarrow>
                    Some (if ok then Some (nat n) else None, dev\<lparr>data := q # nxt\<rparr>, m')))"

subsection \<open>Address translation, as inlined in \<^verbatim>\<open>scull_read\<close> and in \<^verbatim>\<open>scull_write\<close>\<close>

text \<open>
  Lines 277-284 of \<^verbatim>\<open>scull_read\<close>: \<open>(item, s_pos, q_pos)\<close>, or \<open>None\<close> when a division has
  no result (a zero divisor, or \<^verbatim>\<open>LONG_MIN / -1\<close>).
\<close>

definition scull_read_pos :: "int \<Rightarrow> int \<Rightarrow> int \<Rightarrow> (int \<times> int \<times> int) option" where
  "scull_read_pos quantum' qset' f_pos =
     (let itemsize = to_int (quantum' * qset') in
      if itemsize = 0 \<or> (to_long f_pos = - (2 ^ 63) \<and> itemsize = - 1) then None
      else
        let item = to_int (to_long f_pos sdiv itemsize);
            rest = to_int (to_long f_pos smod itemsize)
        in if quantum' = 0 then None
           else
             let s_pos = to_int (rest sdiv quantum');
                 q_pos = to_int (rest smod quantum')
             in Some (item, s_pos, q_pos))"

text \<open>Lines 320-327 of \<^verbatim>\<open>scull_write\<close>.\<close>

definition scull_write_pos :: "int \<Rightarrow> int \<Rightarrow> int \<Rightarrow> (int \<times> int \<times> int) option" where
  "scull_write_pos quantum' qset' f_pos =
     (let itemsize = to_int (quantum' * qset') in
      if itemsize = 0 \<or> (to_long f_pos = - (2 ^ 63) \<and> itemsize = - 1) then None
      else
        let item = to_int (to_long f_pos sdiv itemsize);
            rest = to_int (to_long f_pos smod itemsize)
        in if quantum' = 0 then None
           else
             let s_pos = to_int (rest sdiv quantum');
                 q_pos = to_int (rest smod quantum')
             in Some (item, s_pos, q_pos))"

subsection \<open>\<^verbatim>\<open>scull_read\<close> (lines 259-307)\<close>

text \<open>
  The result of a read: the return value, the bytes that reached the user buffer,
  \<^verbatim>\<open>*f_pos\<close>, the device and the allocator after the call.
\<close>

record read_result =
  r_retval :: int
  r_buf :: string
  r_pos :: int
  r_dev :: scull_dev
  r_kmem :: kmem

text \<open>
  \<open>ubuf\<close> is the number of writable bytes at \<^verbatim>\<open>buf\<close>; \<open>count\<close> is a \<^verbatim>\<open>size_t\<close> and
  \<open>f_pos\<close> the value of \<^verbatim>\<open>*f_pos\<close>, a \<^verbatim>\<open>loff_t\<close>.
\<close>

definition scull_read ::
  "bool \<Rightarrow> scull_dev \<Rightarrow> kmem \<Rightarrow> nat \<Rightarrow> int \<Rightarrow> int \<Rightarrow> read_result option" where
  "scull_read locked dev m ubuf count f_pos =
     (if \<not> locked then
        Some \<lparr>r_retval = - ERESTARTSYS, r_buf = [], r_pos = f_pos, r_dev = dev, r_kmem = m\<rparr>
      else if to_ulong f_pos > size_dev dev then
        Some \<lparr>r_retval = 0, r_buf = [], r_pos = f_pos, r_dev = dev, r_kmem = m\<rparr>
      else
        let count1 = (if to_ulong (to_ulong f_pos + count) > size_dev dev
                      then to_ulong (size_dev dev - to_ulong f_pos) else count)
        in
        case scull_read_pos (quantum dev) (qset dev) f_pos of
          None \<Rightarrow> None
        | Some (item, s_pos, q_pos) \<Rightarrow>
            (case scull_follow dev item m of
               None \<Rightarrow> None
             | Some (None, dev1, m1) \<Rightarrow>
                 Some \<lparr>r_retval = 0, r_buf = [], r_pos = f_pos, r_dev = dev1, r_kmem = m1\<rparr>
             | Some (Some i, dev1, m1) \<Rightarrow>
                 (case data dev1 ! i of
                    None \<Rightarrow>
                      Some \<lparr>r_retval = 0, r_buf = [], r_pos = f_pos, r_dev = dev1, r_kmem = m1\<rparr>
                  | Some slots \<Rightarrow>
                      if s_pos < 0 \<or> int (length slots) \<le> s_pos then None
                      else
                        (case slots ! nat s_pos of
                           None \<Rightarrow>
                             Some \<lparr>r_retval = 0, r_buf = [], r_pos = f_pos,
                                   r_dev = dev1, r_kmem = m1\<rparr>
                         | Some q \<Rightarrow>
                             let count2 =
                                   (if count1 > to_ulong (to_int (quantum dev - q_pos))
                                    then to_ulong (to_int (quantum dev - q_pos)) else count1)
                             in
                             if q_pos < 0 \<or> int (length q) < q_pos + count2 then None
                             else
                               (case copy_to_user ubuf
                                       (take (nat count2) (drop (nat q_pos) q)) of
                                  (left, landed) \<Rightarrow>
                                    if left \<noteq> 0 then
                                      Some \<lparr>r_retval = - EFAULT, r_buf = landed,
                                            r_pos = f_pos, r_dev = dev1, r_kmem = m1\<rparr>
                                    else
                                      Some \<lparr>r_retval = to_long count2, r_buf = landed,
                                            r_pos = to_long (f_pos + count2),
                                            r_dev = dev1, r_kmem = m1\<rparr>)))))"

subsection \<open>\<^verbatim>\<open>scull_write\<close> (lines 309-367)\<close>

record write_result =
  w_retval :: int
  w_pos :: int
  w_dev :: scull_dev
  w_kmem :: kmem

text \<open>
  Lines 334-340: the slot array of the node \<^verbatim>\<open>dptr\<close> after the step (\<open>None\<close>: it was
  missing and \<^verbatim>\<open>kzalloc\<close> failed), and the allocator. A new array has \<^verbatim>\<open>qset\<close> slots, all
  \<^verbatim>\<open>NULL\<close>.
\<close>

definition write_slots ::
  "int \<Rightarrow> scull_qset \<Rightarrow> kmem \<Rightarrow> string option list option \<times> kmem" where
  "write_slots qset' node m =
     (case node of
        Some slots \<Rightarrow> (Some slots, m)
      | None \<Rightarrow>
          (case kzalloc m of
             (False, m') \<Rightarrow> (None, m')
           | (True, m') \<Rightarrow> (Some (replicate (nat qset') None), m')))"

text \<open>
  Lines 341-347: the quantum of the slot after the step (\<open>None\<close>: it was missing and
  \<^verbatim>\<open>kzalloc\<close> failed). A new quantum has \<^verbatim>\<open>quantum\<close> bytes, all zero.
\<close>

definition write_quantum :: "int \<Rightarrow> string option \<Rightarrow> kmem \<Rightarrow> string option \<times> kmem" where
  "write_quantum quantum' slot m =
     (case slot of
        Some q \<Rightarrow> (Some q, m)
      | None \<Rightarrow>
          (case kzalloc m of
             (False, m') \<Rightarrow> (None, m')
           | (True, m') \<Rightarrow> (Some (replicate (nat quantum') (CHR 0x00)), m')))"

text \<open>
  \<open>buf\<close> holds the readable bytes of user memory at \<^verbatim>\<open>buf\<close>; \<open>count\<close> is the \<^verbatim>\<open>size_t\<close>
  argument. A slot array or a quantum that was allocated stays linked when a later
  step fails.
\<close>

definition scull_write ::
  "bool \<Rightarrow> scull_dev \<Rightarrow> kmem \<Rightarrow> string \<Rightarrow> int \<Rightarrow> int \<Rightarrow> write_result option" where
  "scull_write locked dev m buf count f_pos =
     (if \<not> locked then
        Some \<lparr>w_retval = - ERESTARTSYS, w_pos = f_pos, w_dev = dev, w_kmem = m\<rparr>
      else
        case scull_write_pos (quantum dev) (qset dev) f_pos of
          None \<Rightarrow> None
        | Some (item, s_pos, q_pos) \<Rightarrow>
            (case scull_follow dev item m of
               None \<Rightarrow> None
             | Some (None, dev1, m1) \<Rightarrow>
                 Some \<lparr>w_retval = 0, w_pos = f_pos, w_dev = dev1, w_kmem = m1\<rparr>
             | Some (Some i, dev1, m1) \<Rightarrow>
                 (case write_slots (qset dev) (data dev1 ! i) m1 of
                    (None, m2) \<Rightarrow>
                      Some \<lparr>w_retval = - ENOMEM, w_pos = f_pos, w_dev = dev1, w_kmem = m2\<rparr>
                  | (Some slots, m2) \<Rightarrow>
                      if s_pos < 0 \<or> int (length slots) \<le> s_pos then None
                      else
                        (case write_quantum (quantum dev) (slots ! nat s_pos) m2 of
                           (None, m3) \<Rightarrow>
                             Some \<lparr>w_retval = - ENOMEM, w_pos = f_pos,
                                   w_dev = dev1\<lparr>data := (data dev1)[i := Some slots]\<rparr>,
                                   w_kmem = m3\<rparr>
                         | (Some q, m3) \<Rightarrow>
                             let count1 =
                                   (if count > to_ulong (to_int (quantum dev - q_pos))
                                    then to_ulong (to_int (quantum dev - q_pos)) else count)
                             in
                             if q_pos < 0 \<or> int (length q) < q_pos + count1 then None
                             else
                               (case copy_from_user buf (nat count1) of
                                  (left, bytes) \<Rightarrow>
                                    let q' = take (nat q_pos) q @ bytes @
                                               drop (nat q_pos + nat count1) q;
                                        dev2 = dev1\<lparr>data := (data dev1)
                                                 [i := Some (slots[nat s_pos := Some q'])]\<rparr>
                                    in
                                    if left \<noteq> 0 then
                                      Some \<lparr>w_retval = - EFAULT, w_pos = f_pos,
                                            w_dev = dev2, w_kmem = m3\<rparr>
                                    else
                                      let f_pos' = to_long (f_pos + count1) in
                                      Some \<lparr>w_retval = to_int count1, w_pos = f_pos',
                                            w_dev = (if size_dev dev2 < to_ulong f_pos'
                                                     then dev2\<lparr>size_dev := to_ulong f_pos'\<rparr>
                                                     else dev2),
                                            w_kmem = m3\<rparr>)))))"

subsection \<open>\<^verbatim>\<open>scull_init\<close> (lines 403-449) and \<^verbatim>\<open>scull_cleanup\<close> (lines 369-383)\<close>

text \<open>
  What the character-device layer answers: the return value of
  \<^verbatim>\<open>register_chrdev_region\<close> or \<^verbatim>\<open>alloc_chrdev_region\<close>, the major and minor numbers the
  latter chooses, and the return value of \<^verbatim>\<open>cdev_add\<close> for each device index.
\<close>

record chrdev_env =
  region_err :: int
  dyn_major :: int
  dyn_minor :: int
  cdev_add_err :: "nat \<Rightarrow> int"

text \<open>
  The state of the module: its parameters, the table \<^verbatim>\<open>scull_devices\<close> (\<open>None\<close> for
  \<^verbatim>\<open>NULL\<close>), the registered region of device numbers (major, first minor, count) and
  the minors of the character devices added.
\<close>

record scull_module =
  params :: scull_params
  scull_devices :: "scull_dev list option"
  region :: "(int \<times> int \<times> int) option"
  cdevs :: "int list"

text \<open>
  \<^verbatim>\<open>scull_cleanup\<close> trims \<^verbatim>\<open>scull_devices[i]\<close> and deletes its character device for every
  \<^verbatim>\<open>i < scull_num_devs\<close>, frees the table and unregisters 4 device numbers; beyond the
  table, or where a trim is not defined, it has no defined result.
\<close>

definition scull_cleanup :: "scull_module \<Rightarrow> scull_module option" where
  "scull_cleanup ms =
     (case scull_devices ms of
        None \<Rightarrow> Some (ms\<lparr>region := None\<rparr>)
      | Some devs \<Rightarrow>
          if int (length devs) < scull_num_devs (params ms) then None
          else if list_all (\<lambda>dev. scull_trim (params ms) dev \<noteq> None)
                    (take (nat (scull_num_devs (params ms))) devs)
          then Some (ms\<lparr>scull_devices := None, region := None, cdevs := []\<rparr>)
          else None)"

text \<open>The loop of lines 425-434 over the indices still to visit.\<close>

fun init_loop ::
  "scull_params \<Rightarrow> (nat \<Rightarrow> int) \<Rightarrow> nat list \<Rightarrow> scull_dev list \<Rightarrow> int list \<Rightarrow>
   int \<times> scull_dev list \<times> int list" where
  "init_loop p add [] devs added = (0, devs, added)"
| "init_loop p add (i # is) devs added =
     (let devs' = devs[i := (devs ! i)\<lparr>quantum := scull_quantum p, qset := scull_qset p\<rparr>];
          err = add i
      in if err \<noteq> 0 then (err, devs', added)
         else init_loop p add is devs' (added @ [scull_minor p + int i]))"

text \<open>The result of \<open>scull_init\<close>: the return value, the module and the allocator.\<close>

definition scull_init ::
  "scull_params \<Rightarrow> chrdev_env \<Rightarrow> kmem \<Rightarrow> (int \<times> scull_module \<times> kmem) option" where
  "scull_init p env m =
     (let p1 = (if scull_major p \<noteq> 0 then p
                else p\<lparr>scull_major := dyn_major env, scull_minor := dyn_minor env\<rparr>);
          err = region_err env
      in if err \<noteq> 0 then
           Some (err, \<lparr>params = p1, scull_devices = None, region = None, cdevs = []\<rparr>, m)
         else
           (case kzalloc m of
              (False, m') \<Rightarrow>
                Some (- ENOMEM,
                      \<lparr>params = p1, scull_devices = None, region = None, cdevs = []\<rparr>, m')
            | (True, m') \<Rightarrow>
                (case init_loop p1 (cdev_add_err env) [0..<4]
                        (replicate 4 \<lparr>data = [], quantum = 0, qset = 0, size_dev = 0\<rparr>) [] of
                   (err', devs, added) \<Rightarrow>
                     let ms = \<lparr>params = p1, scull_devices = Some devs,
                               region = Some (scull_major p1, scull_minor p1, 4),
                               cdevs = added\<rparr>
                     in if err' \<noteq> 0 then
                          (case scull_cleanup ms of
                             None \<Rightarrow> None
                           | Some ms' \<Rightarrow> Some (err', ms', m'))
                        else Some (0, ms, m'))))"

subsection \<open>Sequences of calls\<close>

text \<open>
  A call of \<^verbatim>\<open>read\<close> or \<^verbatim>\<open>write\<close> on an open file of the device, with the inputs the
  kernel supplies to it, and the run of a list of calls on one device: each call starts
  from the device and the allocator the one before left. The run has no result when
  one of its calls has none.
\<close>

datatype scull_op =
    Read bool nat int int
  | Write bool string int int

fun run_op :: "scull_dev \<Rightarrow> kmem \<Rightarrow> scull_op \<Rightarrow> (scull_dev \<times> kmem) option" where
  "run_op dev m (Read locked ubuf count f_pos) =
     (case scull_read locked dev m ubuf count f_pos of
        None \<Rightarrow> None
      | Some r \<Rightarrow> Some (r_dev r, r_kmem r))"
| "run_op dev m (Write locked buf count f_pos) =
     (case scull_write locked dev m buf count f_pos of
        None \<Rightarrow> None
      | Some w \<Rightarrow> Some (w_dev w, w_kmem w))"

fun run_ops :: "scull_dev \<Rightarrow> kmem \<Rightarrow> scull_op list \<Rightarrow> (scull_dev \<times> kmem) option" where
  "run_ops dev m [] = Some (dev, m)"
| "run_ops dev m (x # xs) =
     (case run_op dev m x of
        None \<Rightarrow> None
      | Some (dev', m') \<Rightarrow> run_ops dev' m' xs)"

text \<open>
  A list of \<^verbatim>\<open>write\<close> calls \<open>(buf, count, f_pos)\<close>, each with the lock obtained: the return
  values in order, the device and the allocator at the end.
\<close>

fun write_seq ::
  "scull_dev \<Rightarrow> kmem \<Rightarrow> (string \<times> int \<times> int) list \<Rightarrow> (int list \<times> scull_dev \<times> kmem) option" where
  "write_seq dev m [] = Some ([], dev, m)"
| "write_seq dev m ((buf, count, f_pos) # ws) =
     (case scull_write True dev m buf count f_pos of
        None \<Rightarrow> None
      | Some w \<Rightarrow>
          (case write_seq (w_dev w) (w_kmem w) ws of
             None \<Rightarrow> None
           | Some (rs, dev', m') \<Rightarrow> Some (w_retval w # rs, dev', m')))"

text \<open>
  The states of a device of the module: a device of the table as \<^verbatim>\<open>scull_init\<close> leaves
  it (zeroed, then \<^verbatim>\<open>quantum\<close> and \<^verbatim>\<open>qset\<close> set from the module parameters), and every
  device that a call of \<^verbatim>\<open>scull_open\<close>, \<^verbatim>\<open>scull_read\<close> or \<^verbatim>\<open>scull_write\<close> with a defined
  result leaves.
\<close>

inductive reachable :: "scull_params \<Rightarrow> scull_dev \<Rightarrow> bool" for p :: scull_params where
  reach_init:
    "reachable p \<lparr>data = [], quantum = scull_quantum p, qset = scull_qset p, size_dev = 0\<rparr>"
| reach_open:
    "reachable p dev \<Longrightarrow> scull_open p wronly locked dev = Some (ret, dev') \<Longrightarrow>
     reachable p dev'"
| reach_read:
    "reachable p dev \<Longrightarrow> scull_read locked dev m ubuf count f_pos = Some r \<Longrightarrow>
     reachable p (r_dev r)"
| reach_write:
    "reachable p dev \<Longrightarrow> scull_write locked dev m buf count f_pos = Some w \<Longrightarrow>
     reachable p (w_dev w)"

subsection \<open>Well-formed devices and requests\<close>

text \<open>
  The quantum and set sizes the translator of section 4.1 of the specification is
  stated for, with the product \<^verbatim>\<open>itemsize\<close> representable as an \<^verbatim>\<open>int\<close>.
\<close>

definition cfg_ok :: "int \<Rightarrow> int \<Rightarrow> bool" where
  "cfg_ok q s \<longleftrightarrow> 0 < q \<and> 0 < s \<and> q * s < 2 ^ 31"

text \<open>
  The invariant of a device: a valid configuration, \<^verbatim>\<open>size\<close> in the range of
  \<^verbatim>\<open>unsigned long\<close>, every slot array of \<^verbatim>\<open>qset\<close> slots and every quantum of \<^verbatim>\<open>quantum\<close>
  bytes.
\<close>

definition wf_slot :: "int \<Rightarrow> string option \<Rightarrow> bool" where
  "wf_slot quantum' slot = (case slot of None \<Rightarrow> True | Some q \<Rightarrow> int (length q) = quantum')"

definition wf_node :: "int \<Rightarrow> int \<Rightarrow> scull_qset \<Rightarrow> bool" where
  "wf_node quantum' qset' node =
     (case node of
        None \<Rightarrow> True
      | Some slots \<Rightarrow> int (length slots) = qset' \<and> list_all (wf_slot quantum') slots)"

definition wf_dev :: "scull_dev \<Rightarrow> bool" where
  "wf_dev dev \<longleftrightarrow>
     cfg_ok (quantum dev) (qset dev) \<and> 0 \<le> size_dev dev \<and> size_dev dev < 2 ^ 64 \<and>
     list_all (wf_node (quantum dev) (qset dev)) (data dev)"

text \<open>
  The offsets whose segment index is representable as an \<^verbatim>\<open>int\<close>; the file layer hands
  no negative offset to a driver.
\<close>

definition pos_ok :: "scull_dev \<Rightarrow> int \<Rightarrow> bool" where
  "pos_ok dev f_pos \<longleftrightarrow> 0 \<le> f_pos \<and> f_pos div (quantum dev * qset dev) < 2 ^ 31"

text \<open>
  The translation in the words of section 4.1 of the specification, on unbounded
  integers.
\<close>

definition spec_segment_index :: "int \<Rightarrow> int \<Rightarrow> int \<Rightarrow> int" where
  "spec_segment_index quantum' qset' pos = pos div (quantum' * qset')"

definition spec_slot_index :: "int \<Rightarrow> int \<Rightarrow> int \<Rightarrow> int" where
  "spec_slot_index quantum' qset' pos = (pos mod (quantum' * qset')) div quantum'"

definition spec_intra_offset :: "int \<Rightarrow> int \<Rightarrow> int \<Rightarrow> int" where
  "spec_intra_offset quantum' qset' pos = (pos mod (quantum' * qset')) mod quantum'"

text \<open>
  The quantum at segment \<open>i\<close>, slot \<open>s\<close> of a chain, \<open>None\<close> where the segment, its slot
  array or the quantum is missing.
\<close>

definition node_at :: "scull_qset list \<Rightarrow> nat \<Rightarrow> scull_qset" where
  "node_at chain i = (if i < length chain then chain ! i else None)"

definition slot_at :: "scull_qset \<Rightarrow> nat \<Rightarrow> string option" where
  "slot_at node s =
     (case node of None \<Rightarrow> None | Some slots \<Rightarrow> if s < length slots then slots ! s else None)"

definition quantum_at :: "scull_dev \<Rightarrow> nat \<Rightarrow> nat \<Rightarrow> string option" where
  "quantum_at dev i s = slot_at (node_at (data dev) i) s"

text \<open>
  Whether a call is a write whose byte range \<open>[f_pos, f_pos + count)\<close> meets
  \<open>[lo, hi)\<close>.
\<close>

fun write_overlaps :: "scull_op \<Rightarrow> int \<Rightarrow> int \<Rightarrow> bool" where
  "write_overlaps (Read locked ubuf count f_pos) lo hi = False"
| "write_overlaps (Write locked buf count f_pos) lo hi =
     (max f_pos lo < min (f_pos + count) hi)"

text \<open>A write call the theorems speak of: a valid offset and a count that is a \<^verbatim>\<open>size_t\<close>.\<close>

fun op_ok :: "scull_dev \<Rightarrow> scull_op \<Rightarrow> bool" where
  "op_ok dev (Read locked ubuf count f_pos) = True"
| "op_ok dev (Write locked buf count f_pos) = (pos_ok dev f_pos \<and> 0 \<le> count)"

text \<open>
  The device stores the bytes \<open>bs\<close> at offset \<open>f_pos\<close>: they lie below \<^verbatim>\<open>size\<close>, in the
  quantum that the translation of \<open>f_pos\<close> names, from the intra-quantum offset on.
\<close>

definition stores :: "scull_dev \<Rightarrow> int \<Rightarrow> string \<Rightarrow> bool" where
  "stores dev f_pos bs \<longleftrightarrow>
     f_pos + int (length bs) \<le> size_dev dev \<and>
     (case quantum_at dev (nat (spec_segment_index (quantum dev) (qset dev) f_pos))
             (nat (spec_slot_index (quantum dev) (qset dev) f_pos)) of
        None \<Rightarrow> False
      | Some q \<Rightarrow>
          take (length bs) (drop (nat (spec_intra_offset (quantum dev) (qset dev) f_pos)) q) = bs)"

section \<open>Auxiliary facts\<close>

subsection \<open>Conversions and the translation\<close>

lemma to_int_id: "- 2147483648 \<le> x \<Longrightarrow> x < 2147483648 \<Longrightarrow> to_int x = x"
  by (simp add: to_int_def)

lemma to_long_id:
  "- 9223372036854775808 \<le> x \<Longrightarrow> x < 9223372036854775808 \<Longrightarrow> to_long x = x"
  by (simp add: to_long_def)

lemma to_ulong_id: "0 \<le> x \<Longrightarrow> x < 18446744073709551616 \<Longrightarrow> to_ulong x = x"
  by (simp add: to_ulong_def)

lemma sdiv_nonneg: "0 \<le> a \<Longrightarrow> 0 < b \<Longrightarrow> a sdiv b = a div (b::int)"
  by (simp add: signed_divide_int_def sgn_if)

lemma smod_nonneg: "0 \<le> a \<Longrightarrow> 0 < b \<Longrightarrow> a smod b = a mod (b::int)"
  by (simp add: signed_modulo_int_def sgn_if)

lemma cfg_okD:
  assumes "cfg_ok q s"
  shows "0 < q" "0 < s" "0 < q * s" "q * s < 2147483648" "q < 2147483648" "s < 2147483648"
proof -
  show q: "0 < q" and s: "0 < s" and b: "q * s < 2147483648"
    using assms by (auto simp: cfg_ok_def)
  show "0 < q * s" using q s by simp
  have "q * 1 \<le> q * s" using q s by (intro mult_left_mono) auto
  then show "q < 2147483648" using b by simp
  have "1 * s \<le> q * s" using q s by (intro mult_right_mono) auto
  then show "s < 2147483648" using b by simp
qed

lemma pos_bound:
  assumes "cfg_ok q s" "0 \<le> p" "p div (q * s) < 2 ^ 31"
  shows "p < 4611686018427387904"
proof -
  note c = cfg_okD[OF assms(1)]
  have "p = (p div (q * s)) * (q * s) + p mod (q * s)" by (simp only: div_mult_mod_eq)
  also have "\<dots> < (p div (q * s)) * (q * s) + q * s" using c(3) by simp
  also have "\<dots> = (p div (q * s) + 1) * (q * s)" by (simp add: algebra_simps)
  also have "\<dots> \<le> 2 ^ 31 * (q * s)" using assms(3) c(3) by (intro mult_right_mono) auto
  also have "\<dots> \<le> 2 ^ 31 * 2 ^ 31" using c(4) by (intro mult_left_mono) auto
  finally show ?thesis by simp
qed

lemma coords_bounds:
  assumes "cfg_ok q s" "0 \<le> p"
  shows "0 \<le> p div (q * s)" "0 \<le> p mod (q * s) div q" "p mod (q * s) div q < s"
    "0 \<le> p mod (q * s) mod q" "p mod (q * s) mod q < q"
proof -
  note c = cfg_okD[OF assms(1)]
  show "0 \<le> p div (q * s)" using assms(2) c(3) by (simp add: pos_imp_zdiv_nonneg_iff)
  have r: "0 \<le> p mod (q * s)" "p mod (q * s) < q * s" using c(3) by auto
  show "0 \<le> p mod (q * s) div q" using r(1) c(1) by (simp add: pos_imp_zdiv_nonneg_iff)
  have "q * (p mod (q * s) div q) + p mod (q * s) mod q = p mod (q * s)"
    by (rule mult_div_mod_eq)
  moreover have "0 \<le> p mod (q * s) mod q" using c(1) by simp
  ultimately have "q * (p mod (q * s) div q) < q * s" using r(2) by linarith
  then show "p mod (q * s) div q < s" using c(1) by (simp add: mult_less_cancel_left_pos)
  show "0 \<le> p mod (q * s) mod q" "p mod (q * s) mod q < q" using c(1) by auto
qed

lemma write_pos_math:
  assumes "cfg_ok q s" "0 \<le> p" "p div (q * s) < 2 ^ 31"
  shows "scull_write_pos q s p =
           Some (p div (q * s), p mod (q * s) div q, p mod (q * s) mod q)"
proof -
  note c = cfg_okD[OF assms(1)]
  note b = coords_bounds[OF assms(1,2)]
  have p: "p < 4611686018427387904" using pos_bound[OF assms] .
  have i1: "to_int (q * s) = q * s" using c by (intro to_int_id; linarith)
  have l1: "to_long p = p" using p assms(2) by (intro to_long_id; linarith)
  have d': "p div (q * s) < 2147483648" using assms(3) by simp
  have r: "0 \<le> p mod (q * s)" "p mod (q * s) < q * s" using c(3) by auto
  have i2: "to_int (p div (q * s)) = p div (q * s)" using b(1) d' by (intro to_int_id; linarith)
  have i3: "to_int (p mod (q * s)) = p mod (q * s)" using r c(4) by (intro to_int_id; linarith)
  have i4: "to_int (p mod (q * s) div q) = p mod (q * s) div q"
    using b(2,3) c(6) by (intro to_int_id; linarith)
  have i5: "to_int (p mod (q * s) mod q) = p mod (q * s) mod q"
    using b(4,5) c(5) by (intro to_int_id; linarith)
  have nz: "q * s \<noteq> 0" "q * s \<noteq> - 1" "q \<noteq> 0" using c(1,3) by linarith+
  show ?thesis
    unfolding scull_write_pos_def Let_def i1 l1
    using nz
    by (simp add: sdiv_nonneg[OF assms(2) c(3)] smod_nonneg[OF assms(2) c(3)] i2 i3
          sdiv_nonneg[OF r(1) c(1)] smod_nonneg[OF r(1) c(1)] i4 i5)
qed

lemma read_pos_write_pos: "scull_read_pos q s p = scull_write_pos q s p"
  by (simp add: scull_read_pos_def scull_write_pos_def)

subsection \<open>The segment locator\<close>

lemma kzalloc_ok [simp]: "kzalloc (\<lambda>_. True) = (True, \<lambda>_. True)"
  by (simp add: kzalloc_def)

lemma follow_loop_shape:
  "follow_loop nxt n m = (ok, nxt', m') \<Longrightarrow>
     (\<exists>k. nxt' = nxt @ replicate k None) \<and> (ok \<longrightarrow> n \<le> length nxt') \<and>
     (\<not> ok \<longrightarrow> length nxt' < n)"
proof (induction nxt n m arbitrary: ok nxt' m' rule: follow_loop.induct)
  case (1 nxt m)
  then show ?case by auto
next
  case (2 n m)
  show ?case
  proof (cases "kzalloc m")
    case (Pair b m1)
    show ?thesis
    proof (cases b)
      case False
      with 2 Pair show ?thesis by auto
    next
      case True
      obtain ok2 nxt2 m2 where f: "follow_loop [] n m1 = (ok2, nxt2, m2)"
        by (cases "follow_loop [] n m1") auto
      from "2.IH"[OF Pair[symmetric] _ f] True
      have ih: "(\<exists>k. nxt2 = replicate k None) \<and> (ok2 \<longrightarrow> n \<le> length nxt2) \<and>
                (\<not> ok2 \<longrightarrow> length nxt2 < n)"
        by auto
      from "2.prems" Pair True f have e: "ok = ok2" "nxt' = None # nxt2" by auto
      from ih obtain k where "nxt2 = replicate k None" by blast
      then have "nxt' = [] @ replicate (Suc k) None" using e by simp
      then show ?thesis using ih e by (metis Suc_le_mono length_Cons not_less_eq)
    qed
  qed
next
  case (3 q nxt n m)
  obtain ok2 nxt2 m2 where f: "follow_loop nxt n m = (ok2, nxt2, m2)"
    by (cases "follow_loop nxt n m") auto
  from "3.IH"[OF f]
  have ih: "(\<exists>k. nxt2 = nxt @ replicate k None) \<and> (ok2 \<longrightarrow> n \<le> length nxt2) \<and>
            (\<not> ok2 \<longrightarrow> length nxt2 < n)" .
  from "3.prems" f have e: "ok = ok2" "nxt' = q # nxt2" by auto
  show ?case using ih e by auto
qed

lemma follow_loop_present: "n \<le> length nxt \<Longrightarrow> follow_loop nxt n m = (True, nxt, m)"
  by (induction nxt n m rule: follow_loop.induct) auto

lemma follow_loop_allok:
  "follow_loop nxt n (\<lambda>_. True) = (True, nxt @ replicate (n - length nxt) None, \<lambda>_. True)"
proof (induction nxt n "\<lambda>_::nat. True" rule: follow_loop.induct)
  case (1 nxt)
  then show ?case by simp
next
  case (2 n)
  then show ?case by (simp add: replicate_app_Cons_same)
next
  case (3 q nxt n)
  then show ?case by simp
qed

text \<open>Every defined result of the locator extends the chain by empty nodes.\<close>

lemma scull_follow_shape:
  assumes "scull_follow dev n m = Some (r, dev', m')"
  shows "(\<exists>k. dev' = dev\<lparr>data := data dev @ replicate k None\<rparr>) \<and>
         (case r of Some i \<Rightarrow> 0 \<le> n \<and> i = nat n \<and> i < length (data dev')
                  | None \<Rightarrow> length (data dev') \<le> nat n \<or> n < 0)"
proof (cases "data dev")
  case Nil
  show ?thesis
  proof (cases "kzalloc m")
    case (Pair b m1)
    show ?thesis
    proof (cases b)
      case False
      with assms Nil Pair have "r = None" "dev' = dev" by (auto simp: scull_follow_def)
      then show ?thesis using Nil by (auto intro: exI[of _ 0])
    next
      case True
      with assms Nil Pair have n: "0 \<le> n" by (auto simp: scull_follow_def split: if_splits)
      obtain ok nxt m2 where f: "follow_loop [] (nat n) m1 = (ok, nxt, m2)"
        by (cases "follow_loop [] (nat n) m1") auto
      from follow_loop_shape[OF f] obtain k where
        k: "nxt = replicate k None" and l: "ok \<longrightarrow> nat n \<le> length nxt" "\<not> ok \<longrightarrow> length nxt < nat n"
        by auto
      from assms Nil Pair True n f
      have e: "r = (if ok then Some (nat n) else None)" "dev' = dev\<lparr>data := None # nxt\<rparr>"
        by (auto simp: scull_follow_def)
      have d: "dev' = dev\<lparr>data := data dev @ replicate (Suc k) None\<rparr>" using e k Nil by simp
      have len: "length (data dev') = Suc (length nxt)" using e by simp
      have "\<exists>k. dev' = dev\<lparr>data := data dev @ replicate k None\<rparr>" using d by blast
      then show ?thesis using e(1) l n len by (cases ok) auto
    qed
  qed
next
  case (Cons q nxt0)
  with assms have n: "0 \<le> n" by (auto simp: scull_follow_def split: if_splits)
  obtain ok nxt m2 where f: "follow_loop nxt0 (nat n) m = (ok, nxt, m2)"
    by (cases "follow_loop nxt0 (nat n) m") auto
  from follow_loop_shape[OF f] obtain k where
    k: "nxt = nxt0 @ replicate k None" and l: "ok \<longrightarrow> nat n \<le> length nxt" "\<not> ok \<longrightarrow> length nxt < nat n"
    by auto
  from assms Cons n f
  have e: "r = (if ok then Some (nat n) else None)" "dev' = dev\<lparr>data := q # nxt\<rparr>"
    by (auto simp: scull_follow_def)
  have d: "dev' = dev\<lparr>data := data dev @ replicate k None\<rparr>" using e k Cons by simp
  have len: "length (data dev') = Suc (length nxt)" using e by simp
  have "\<exists>k. dev' = dev\<lparr>data := data dev @ replicate k None\<rparr>" using d by blast
  then show ?thesis using e(1) l n len by (cases ok) auto
qed

lemma scull_follow_defined:
  assumes "0 \<le> n"
  shows "\<exists>r dev' m'. scull_follow dev n m = Some (r, dev', m')"
  using assms
  by (auto simp: scull_follow_def split: list.splits prod.splits bool.splits)

lemma scull_follow_present:
  assumes "0 \<le> n" "nat n < length (data dev)"
  shows "scull_follow dev n m = Some (Some (nat n), dev, m)"
proof (cases "data dev")
  case Nil
  with assms show ?thesis by simp
next
  case (Cons q nxt0)
  then have "nat n \<le> length nxt0" using assms by simp
  from follow_loop_present[OF this] Cons assms(1) show ?thesis
    by (simp add: scull_follow_def)
qed

lemma scull_follow_allok:
  assumes "0 \<le> n"
  shows "scull_follow dev n (\<lambda>_. True) =
           Some (Some (nat n),
                 dev\<lparr>data := data dev @ replicate (Suc (nat n) - length (data dev)) None\<rparr>,
                 \<lambda>_. True)"
proof (cases "data dev")
  case Nil
  with assms show ?thesis
    by (simp add: scull_follow_def follow_loop_allok replicate_app_Cons_same)
next
  case (Cons q nxt0)
  with assms show ?thesis
    by (simp add: scull_follow_def follow_loop_allok)
qed

subsection \<open>Quanta of a chain\<close>

lemma node_at_append_None [simp]: "node_at (ch @ replicate k None) i = node_at ch i"
  by (auto simp: node_at_def nth_append)

lemma node_at_update:
  "node_at (ch[j := v]) i = (if i = j \<and> j < length ch then v else node_at ch i)"
  by (auto simp: node_at_def)

lemma slot_at_None [simp]: "slot_at None s = None"
  by (simp add: slot_at_def)

lemma slot_at_replicate [simp]: "slot_at (Some (replicate n None)) s = None"
  by (simp add: slot_at_def)

lemma slot_at_update:
  "slot_at (Some (slots[t := v])) s =
     (if s = t \<and> t < length slots then v else slot_at (Some slots) s)"
  by (auto simp: slot_at_def)

lemma quantum_at_append [simp]:
  "quantum_at (dev\<lparr>data := data dev @ replicate k None\<rparr>) i s = quantum_at dev i s"
  by (simp add: quantum_at_def)

lemma wf_dev_append:
  "wf_dev dev \<Longrightarrow> wf_dev (dev\<lparr>data := data dev @ replicate k None\<rparr>)"
  by (auto simp: wf_dev_def wf_node_def list_all_iff)

subsection \<open>What a read returns\<close>

lemma wf_dev_quantum_at:
  assumes "wf_dev dev" "quantum_at dev i s = Some q"
  shows "int (length q) = quantum dev"
proof -
  from assms(2) obtain slots where n: "i < length (data dev)" "data dev ! i = Some slots"
    and sl: "s < length slots" "slots ! s = Some q"
    by (auto simp: quantum_at_def node_at_def slot_at_def split: if_splits option.splits)
  from assms(1) n have "wf_node (quantum dev) (qset dev) (Some slots)"
    by (auto simp: wf_dev_def list_all_length)
  then have "wf_slot (quantum dev) (Some q)" using sl
    by (auto simp: wf_node_def list_all_length)
  then show ?thesis by (simp add: wf_slot_def)
qed

lemma wf_dev_node_at:
  assumes "wf_dev dev" "node_at (data dev) i = Some slots"
  shows "int (length slots) = qset dev"
proof -
  from assms(2) have n: "i < length (data dev)" "data dev ! i = Some slots"
    by (auto simp: node_at_def split: if_splits)
  from assms(1) n have "wf_node (quantum dev) (qset dev) (Some slots)"
    by (auto simp: wf_dev_def list_all_length)
  then show ?thesis by (simp add: wf_node_def)
qed

lemma scull_read_spec:
  assumes wf: "wf_dev dev" and pos: "pos_ok dev p"
    and cnt: "0 \<le> count" "p + count < 2 ^ 64"
  shows "\<exists>r. scull_read True dev m ubuf count p = Some r \<and>
           (\<exists>k. r_dev r = dev\<lparr>data := data dev @ replicate k None\<rparr>) \<and>
           (if size_dev dev < p \<or>
               quantum_at dev (nat (p div (quantum dev * qset dev)))
                 (nat (p mod (quantum dev * qset dev) div quantum dev)) = None
            then r_retval r = 0 \<and> r_buf r = [] \<and> r_pos r = p
            else
              let n = min count (min (size_dev dev - p)
                        (quantum dev - p mod (quantum dev * qset dev) mod quantum dev))
              in if nat n \<le> ubuf then
                   r_retval r = n \<and> r_pos r = p + n \<and>
                   r_buf r = take (nat n)
                     (drop (nat (p mod (quantum dev * qset dev) mod quantum dev))
                        (the (quantum_at dev (nat (p div (quantum dev * qset dev)))
                                (nat (p mod (quantum dev * qset dev) div quantum dev)))))
                 else r_retval r = - EFAULT \<and> r_pos r = p)"
proof -
  define Q where "Q = quantum dev"
  define S where "S = qset dev"
  define I where "I = p div (Q * S)"
  define Sp where "Sp = p mod (Q * S) div Q"
  define Qp where "Qp = p mod (Q * S) mod Q"
  have cfg: "cfg_ok Q S" using wf by (simp add: wf_dev_def Q_def S_def)
  note c = cfg_okD[OF cfg]
  have p0: "0 \<le> p" and pI: "p div (Q * S) < 2 ^ 31"
    using pos by (auto simp: pos_ok_def Q_def S_def)
  note b = coords_bounds[OF cfg p0, folded I_def Sp_def Qp_def]
  have pl: "p < 4611686018427387904" using pos_bound[OF cfg p0 pI] .
  have sz: "0 \<le> size_dev dev" "size_dev dev < 18446744073709551616"
    using wf by (auto simp: wf_dev_def)
  have up: "to_ulong p = p" using p0 pl by (intro to_ulong_id; linarith)
  have tr: "scull_read_pos (quantum dev) (qset dev) p = Some (I, Sp, Qp)"
    using write_pos_math[OF cfg p0 pI]
    by (simp add: read_pos_write_pos Q_def S_def I_def Sp_def Qp_def)
  show ?thesis
  proof (cases "size_dev dev < p")
    case True
    then have "scull_read True dev m ubuf count p =
        Some \<lparr>r_retval = 0, r_buf = [], r_pos = p, r_dev = dev, r_kmem = m\<rparr>"
      by (simp add: scull_read_def up)
    moreover have "\<exists>k. dev = dev\<lparr>data := data dev @ replicate k None\<rparr>"
      by (rule exI[of _ 0]) simp
    ultimately show ?thesis using True by simp
  next
    case False
    obtain r0 dev1 m1 where f: "scull_follow dev I m = Some (r0, dev1, m1)"
      using scull_follow_defined[OF b(1)] by blast
    from scull_follow_shape[OF f] obtain k where
      d1: "dev1 = dev\<lparr>data := data dev @ replicate k None\<rparr>"
      and r0: "case r0 of Some i \<Rightarrow> 0 \<le> I \<and> i = nat I \<and> i < length (data dev1)
                 | None \<Rightarrow> length (data dev1) \<le> nat I \<or> I < 0"
      by blast
    have na: "node_at (data dev1) (nat I) = node_at (data dev) (nat I)"
      using d1 by simp
    have cnt': "count < 18446744073709551616" using cnt p0 by simp
    have u1: "to_ulong (p + count) = p + count"
      using p0 cnt by (intro to_ulong_id) auto
    have u2: "to_ulong (size_dev dev - p) = size_dev dev - p"
      using False sz p0 by (intro to_ulong_id; linarith)
    define count1 where "count1 = min count (size_dev dev - p)"
    have c1: "(if size_dev dev < p + count then to_ulong (size_dev dev - to_ulong p) else count)
               = count1"
      by (auto simp: count1_def up u2)
    have c1b: "0 \<le> count1" using cnt(1) False by (simp add: count1_def)
    have i6: "to_int (quantum dev - Qp) = quantum dev - Qp"
      using b(4,5) c(5) unfolding Q_def by (intro to_int_id; linarith)
    have u3: "to_ulong (quantum dev - Qp) = quantum dev - Qp"
      using b(4,5) c(5) unfolding Q_def by (intro to_ulong_id; linarith)
    define count2 where "count2 = min count1 (Q - Qp)"
    have c2: "(if quantum dev - Qp < count1 then to_ulong (to_int (quantum dev - Qp)) else count1)
               = count2"
      by (auto simp: count2_def Q_def i6 u3)
    have c2b: "0 \<le> count2" "count2 \<le> Q - Qp" "count2 < 2147483648"
      using c1b b(4,5) c(5) by (auto simp: count2_def)
    have n_eq: "min count (min (size_dev dev - p) (Q - Qp)) = count2"
      by (simp add: count2_def count1_def)
    have l2: "to_long count2 = count2" using c2b by (intro to_long_id; linarith)
    have l3: "to_long (p + count2) = p + count2"
      using c2b p0 pl by (intro to_long_id; linarith)
    let ?none = "Some \<lparr>r_retval = 0, r_buf = [], r_pos = p, r_dev = dev1, r_kmem = m1\<rparr>"
    note rd_simps = scull_read_def up u1 i6 u3 tr f c1 c2 l2 l3 Let_def
    have ex_k: "\<exists>k. dev1 = dev\<lparr>data := data dev @ replicate k None\<rparr>"
      using d1 by blast
    let ?qa = "quantum_at dev (nat I) (nat Sp)"
    have goal_none: ?thesis
      if "scull_read True dev m ubuf count p = ?none" "?qa = None"
      using that ex_k by (simp add: Q_def S_def I_def Sp_def)
    show ?thesis
    proof (cases r0)
      case None
      with r0 b(1) have "length (data dev1) \<le> nat I" by simp
      then have "node_at (data dev1) (nat I) = None" by (simp add: node_at_def)
      then have "?qa = None" using na by (simp add: quantum_at_def)
      moreover have "scull_read True dev m ubuf count p = ?none"
        using False None by (simp add: rd_simps)
      ultimately show ?thesis by (rule goal_none[rotated])
    next
      case (Some i)
      with r0 have i: "i = nat I" "i < length (data dev1)" by auto
      then have nd: "data dev1 ! i = node_at (data dev) (nat I)"
        using na by (simp add: node_at_def)
      show ?thesis
      proof (cases "node_at (data dev) (nat I)")
        case None
        then have "?qa = None" by (simp add: quantum_at_def)
        moreover have "scull_read True dev m ubuf count p = ?none"
          using False Some nd None by (simp add: rd_simps)
        ultimately show ?thesis by (rule goal_none[rotated])
      next
        case (Some slots)
        note slots = this
        have ls: "int (length slots) = S" using wf_dev_node_at[OF wf slots] by (simp add: S_def)
        have sp: "\<not> (Sp < 0 \<or> int (length slots) \<le> Sp)" using b(2,3) ls by simp
        have "nat Sp < length slots" using sp b(2) by linarith
        then have sl: "slots ! nat Sp = ?qa"
          using slots by (simp add: quantum_at_def slot_at_def)
        show ?thesis
        proof (cases ?qa)
          case None
          moreover have "scull_read True dev m ubuf count p = ?none"
            using False \<open>r0 = Some i\<close> nd slots sp sl None by (simp add: rd_simps)
          ultimately show ?thesis by (rule goal_none[rotated])
        next
          case (Some q)
          have lq: "int (length q) = Q" using wf_dev_quantum_at[OF wf Some] by (simp add: Q_def)
          have qp: "\<not> (Qp < 0 \<or> int (length q) < Qp + count2)" using b(4) lq c2b by simp
          have len: "length (take (nat count2) (drop (nat Qp) q)) = nat count2"
            using lq c2b b(4) by simp
          have rd: "scull_read True dev m ubuf count p =
              (if nat count2 - ubuf \<noteq> 0 then
                 Some \<lparr>r_retval = - EFAULT, r_buf = take ubuf (take (nat count2) (drop (nat Qp) q)),
                       r_pos = p, r_dev = dev1, r_kmem = m1\<rparr>
               else Some \<lparr>r_retval = count2, r_buf = take ubuf (take (nat count2) (drop (nat Qp) q)),
                       r_pos = p + count2, r_dev = dev1, r_kmem = m1\<rparr>)"
            using False \<open>r0 = Some i\<close> nd slots sp sl Some qp
            by (simp add: rd_simps copy_to_user_def len del: length_take length_drop take_take)
          show ?thesis
          proof (cases "nat count2 \<le> ubuf")
            case True
            then have "scull_read True dev m ubuf count p =
                Some \<lparr>r_retval = count2, r_buf = take (nat count2) (drop (nat Qp) q),
                       r_pos = p + count2, r_dev = dev1, r_kmem = m1\<rparr>"
              using rd len by simp
            then show ?thesis using ex_k Some False True n_eq
              by (simp add: Q_def S_def I_def Sp_def Qp_def Let_def del: min_less_iff_conj)
          next
            case nle: False
            then have "scull_read True dev m ubuf count p =
                Some \<lparr>r_retval = - EFAULT, r_buf = take ubuf (take (nat count2) (drop (nat Qp) q)),
                       r_pos = p, r_dev = dev1, r_kmem = m1\<rparr>"
              using rd by simp
            then show ?thesis using ex_k Some False nle n_eq
              by (simp add: Q_def S_def I_def Sp_def Qp_def Let_def del: min_less_iff_conj)
          qed
        qed
      qed
    qed
  qed
qed

subsection \<open>What a write does\<close>

lemma wf_dev_update:
  assumes "wf_dev d" "wf_node (quantum d) (qset d) node"
  shows "wf_dev (d\<lparr>data := (data d)[i := node]\<rparr>)"
  using assms by (auto simp: wf_dev_def list_all_iff dest: set_update_subset_insert[THEN subsetD])

lemma wf_node_update:
  assumes "wf_node Q S (Some slots)" "int (length q) = Q"
  shows "wf_node Q S (Some (slots[s := Some q]))"
  using assms
  by (auto simp: wf_node_def wf_slot_def list_all_iff dest!: set_update_subset_insert[THEN subsetD])

lemma wf_node_replicate: "0 \<le> S \<Longrightarrow> wf_node Q S (Some (replicate (nat S) None))"
  by (simp add: wf_node_def wf_slot_def list_all_iff)

lemma wf_dev_size: "wf_dev d \<Longrightarrow> 0 \<le> x \<Longrightarrow> x < 2 ^ 64 \<Longrightarrow> wf_dev (d\<lparr>size_dev := x\<rparr>)"
  by (simp add: wf_dev_def)

lemma quantum_at_update:
  "quantum_at (d\<lparr>data := (data d)[i := Some (slots[s := v])]\<rparr>) i' s' =
     (if i' = i \<and> i < length (data d) then
        (if s' = s \<and> s < length slots then v else slot_at (Some slots) s')
      else quantum_at d i' s')"
  by (simp add: quantum_at_def node_at_update slot_at_update)

lemma quantum_at_size [simp]: "quantum_at (d\<lparr>size_dev := x\<rparr>) i s = quantum_at d i s"
  by (simp add: quantum_at_def)

lemma scull_write_spec:
  assumes wf: "wf_dev dev" and pos: "pos_ok dev p" and cnt: "0 \<le> count"
  defines "I \<equiv> nat (spec_segment_index (quantum dev) (qset dev) p)"
      and "Sn \<equiv> nat (spec_slot_index (quantum dev) (qset dev) p)"
      and "Qp \<equiv> spec_intra_offset (quantum dev) (qset dev) p"
  defines "n \<equiv> min count (quantum dev - Qp)"
      and "q0 \<equiv> (case quantum_at dev I Sn of
                    None \<Rightarrow> replicate (nat (quantum dev)) (CHR 0x00) | Some q \<Rightarrow> q)"
  shows "\<exists>w. scull_write True dev m buf count p = Some w \<and>
           wf_dev (w_dev w) \<and> quantum (w_dev w) = quantum dev \<and> qset (w_dev w) = qset dev \<and>
           (\<forall>i s. (i, s) \<noteq> (I, Sn) \<longrightarrow> quantum_at (w_dev w) i s = quantum_at dev i s) \<and>
           (quantum_at (w_dev w) I Sn = quantum_at dev I Sn \<or>
            (\<exists>bytes. length bytes = nat n \<and>
               quantum_at (w_dev w) I Sn =
                 Some (take (nat Qp) q0 @ bytes @ drop (nat Qp + nat n) q0))) \<and>
           ((w_retval w = n \<and> w_pos w = p + n \<and>
             size_dev (w_dev w) = max (size_dev dev) (p + n) \<and> nat n \<le> length buf \<and>
             quantum_at (w_dev w) I Sn =
               Some (take (nat Qp) q0 @ take (nat n) buf @ drop (nat Qp + nat n) q0))
            \<or> (w_retval w \<le> 0 \<and> w_pos w = p \<and> size_dev (w_dev w) = size_dev dev \<and>
                \<not> (m = (\<lambda>_. True) \<and> nat n \<le> length buf))) \<and>
           (m = (\<lambda>_. True) \<longrightarrow> w_kmem w = (\<lambda>_. True))"
proof -
  define Q where "Q = quantum dev"
  define S where "S = qset dev"
  define Ii where "Ii = p div (Q * S)"
  define Sp where "Sp = p mod (Q * S) div Q"
  have I: "I = nat Ii" by (simp add: I_def spec_segment_index_def Q_def S_def Ii_def)
  have Sn: "Sn = nat Sp" by (simp add: Sn_def spec_slot_index_def Q_def S_def Sp_def)
  have Qp: "Qp = p mod (Q * S) mod Q" by (simp add: Qp_def spec_intra_offset_def Q_def S_def)
  have cfg: "cfg_ok Q S" using wf by (simp add: wf_dev_def Q_def S_def)
  note c = cfg_okD[OF cfg]
  have p0: "0 \<le> p" and pI: "p div (Q * S) < 2 ^ 31"
    using pos by (auto simp: pos_ok_def Q_def S_def)
  note b = coords_bounds[OF cfg p0, folded Ii_def Sp_def Qp]
  have pl: "p < 4611686018427387904" using pos_bound[OF cfg p0 pI] .
  have sz: "0 \<le> size_dev dev" "size_dev dev < 18446744073709551616"
    using wf by (auto simp: wf_dev_def)
  have tr: "scull_write_pos (quantum dev) (qset dev) p = Some (Ii, Sp, Qp)"
    using write_pos_math[OF cfg p0 pI]
    by (simp add: Q_def S_def Ii_def Sp_def Qp)
  obtain r0 dev1 m1 where f: "scull_follow dev Ii m = Some (r0, dev1, m1)"
    using scull_follow_defined[OF b(1)] by blast
  from scull_follow_shape[OF f] obtain k where
    d1: "dev1 = dev\<lparr>data := data dev @ replicate k None\<rparr>"
    and r0: "case r0 of Some i \<Rightarrow> 0 \<le> Ii \<and> i = nat Ii \<and> i < length (data dev1)
               | None \<Rightarrow> length (data dev1) \<le> nat Ii \<or> Ii < 0"
    by blast
  have wf1: "wf_dev dev1" using wf d1 by (simp add: wf_dev_append)
  have cf1: "quantum dev1 = Q" "qset dev1 = S" "size_dev dev1 = size_dev dev"
    using d1 by (simp_all add: Q_def S_def)
  have qa1: "quantum_at dev1 i s = quantum_at dev i s" for i s using d1 by simp
  have ak: "m = (\<lambda>_. True) \<Longrightarrow> r0 = Some (nat Ii) \<and> m1 = (\<lambda>_. True)"
    using f scull_follow_allok[OF b(1), of dev] by simp
  have i6: "to_int (quantum dev - Qp) = quantum dev - Qp"
    using b(4,5) c(5) unfolding Q_def by (intro to_int_id; linarith)
  have u3: "to_ulong (quantum dev - Qp) = quantum dev - Qp"
    using b(4,5) c(5) unfolding Q_def by (intro to_ulong_id; linarith)
  have c2: "(if quantum dev - Qp < count then to_ulong (to_int (quantum dev - Qp)) else count) = n"
    by (auto simp: n_def i6 u3)
  have nb: "0 \<le> n" "n \<le> Q - Qp" "n < 2147483648"
    using cnt b(4,5) c(5) by (auto simp: n_def Q_def)
  have i7: "to_int n = n" using nb by (intro to_int_id; linarith)
  have l3: "to_long (p + n) = p + n" using nb p0 pl by (intro to_long_id; linarith)
  have u4: "to_ulong (p + n) = p + n" using nb p0 pl by (intro to_ulong_id; linarith)
  note wr_simps = scull_write_def tr f i6 u3 c2 i7 l3 u4 Let_def
  let ?fail = "\<lambda>w. wf_dev (w_dev w) \<and> quantum (w_dev w) = quantum dev \<and>
      qset (w_dev w) = qset dev \<and> (\<forall>i s. quantum_at (w_dev w) i s = quantum_at dev i s) \<and>
      w_retval w \<le> 0 \<and> w_pos w = p \<and> size_dev (w_dev w) = size_dev dev \<and>
      \<not> (m = (\<lambda>_. True) \<and> nat n \<le> length buf) \<and> (m = (\<lambda>_. True) \<longrightarrow> w_kmem w = (\<lambda>_. True))"
  have failI: ?thesis if "scull_write True dev m buf count p = Some w" "?fail w" for w
    using that by auto
  show ?thesis
  proof (cases r0)
    case None
    then have "scull_write True dev m buf count p =
        Some \<lparr>w_retval = 0, w_pos = p, w_dev = dev1, w_kmem = m1\<rparr>"
      by (simp add: wr_simps)
    moreover have "?fail \<lparr>w_retval = 0, w_pos = p, w_dev = dev1, w_kmem = m1\<rparr>"
      using wf1 cf1 qa1 ak None by (auto simp: Q_def S_def)
    ultimately show ?thesis by (rule failI)
  next
    case (Some i)
    with r0 have i: "i = nat Ii" "i < length (data dev1)" by auto
    define nd where "nd = node_at (data dev) I"
    have nd: "data dev1 ! i = nd"
    proof -
      have "data dev1 ! i = node_at (data dev1) i" using i(2) by (simp add: node_at_def)
      also have "\<dots> = node_at (data dev) i" using d1 by simp
      finally show ?thesis using i(1) I by (simp add: nd_def)
    qed
    have iI: "i = I" using i(1) I by simp
    define slots where "slots = (case nd of Some sl \<Rightarrow> sl | None \<Rightarrow> replicate (nat S) None)"
    have sl_at: "slot_at (Some slots) s = quantum_at dev I s" for s
      by (cases nd) (simp_all add: slots_def quantum_at_def nd_def)
    have wfn: "wf_node Q S (Some slots)"
    proof (cases nd)
      case None
      then show ?thesis using c(2) by (simp add: slots_def wf_node_replicate)
    next
      case (Some sl)
      then have "I < length (data dev)" "data dev ! I = Some sl"
        by (auto simp: nd_def node_at_def split: if_splits)
      then have "wf_node (quantum dev) (qset dev) (Some sl)"
        using wf by (auto simp: wf_dev_def list_all_length)
      then show ?thesis using Some by (simp add: slots_def Q_def S_def)
    qed
    then have ls: "int (length slots) = S" by (simp add: wf_node_def)
    obtain so m2 where ws: "write_slots (qset dev) (data dev1 ! i) m1 = (so, m2)"
      by fastforce
    have so: "so = None \<or> so = Some slots"
      using ws nd
      by (auto simp: write_slots_def slots_def S_def split: option.splits prod.splits bool.splits)
    have ak2: "m = (\<lambda>_. True) \<Longrightarrow> so \<noteq> None \<and> m2 = (\<lambda>_. True)"
    proof -
      assume "m = (\<lambda>_. True)"
      with ak have m1: "m1 = (\<lambda>_. True)" by simp
      obtain v where v: "data dev1 ! i = v" by simp
      show ?thesis using ws unfolding v m1 by (cases v) (auto simp: write_slots_def)
    qed
    show ?thesis
    proof (cases so)
      case None
      then have "scull_write True dev m buf count p =
          Some \<lparr>w_retval = - ENOMEM, w_pos = p, w_dev = dev1, w_kmem = m2\<rparr>"
        using \<open>r0 = Some i\<close> ws by (simp add: wr_simps)
      moreover have "?fail \<lparr>w_retval = - ENOMEM, w_pos = p, w_dev = dev1, w_kmem = m2\<rparr>"
        using wf1 cf1 qa1 ak2 None by (auto simp: Q_def S_def ENOMEM_def)
      ultimately show ?thesis by (rule failI)
    next
      case (Some sl')
      with so have so': "so = Some slots" by simp
      have sp: "\<not> (Sp < 0 \<or> int (length slots) \<le> Sp)" using b(2,3) ls by simp
      have snl: "Sn < length slots" using sp b(2) Sn by linarith
      have slq: "slots ! nat Sp = quantum_at dev I Sn"
        using sl_at[of Sn] snl Sn by (simp add: slot_at_def)
      define dev1' where "dev1' = dev1\<lparr>data := (data dev1)[i := Some slots]\<rparr>"
      have wf1': "wf_dev dev1'"
        unfolding dev1'_def using wf1 wfn cf1 by (intro wf_dev_update) simp_all
      have qa1': "quantum_at dev1' i' s' = quantum_at dev i' s'" for i' s'
        using i(2) sl_at[of s'] qa1[of i' s'] iI
        by (simp add: dev1'_def quantum_at_def node_at_update)
      obtain qo m3 where wq: "write_quantum (quantum dev) (slots ! nat Sp) m2 = (qo, m3)"
        by fastforce
      have qo: "(qo = None \<and> quantum_at dev I Sn = None) \<or> qo = Some q0"
        using wq slq
        by (auto simp: write_quantum_def q0_def split: option.splits prod.splits bool.splits)
      have ak3: "m = (\<lambda>_. True) \<Longrightarrow> qo \<noteq> None \<and> m3 = (\<lambda>_. True)"
      proof -
        assume "m = (\<lambda>_. True)"
        with ak2 have m2: "m2 = (\<lambda>_. True)" by simp
        obtain v where v: "slots ! nat Sp = v" by simp
        show ?thesis using wq unfolding v m2 by (cases v) (auto simp: write_quantum_def)
      qed
      show ?thesis
      proof (cases qo)
        case None
        then have "scull_write True dev m buf count p =
            Some \<lparr>w_retval = - ENOMEM, w_pos = p, w_dev = dev1', w_kmem = m3\<rparr>"
          using \<open>r0 = Some i\<close> ws so' sp wq by (simp add: wr_simps dev1'_def)
        moreover have "?fail \<lparr>w_retval = - ENOMEM, w_pos = p, w_dev = dev1', w_kmem = m3\<rparr>"
          using wf1' cf1 qa1' ak3 None by (auto simp: Q_def S_def ENOMEM_def dev1'_def)
        ultimately show ?thesis by (rule failI)
      next
        case (Some q)
        with qo have qo': "qo = Some q0" by auto
        have lq0: "int (length q0) = Q"
        proof (cases "quantum_at dev I Sn")
          case None
          then show ?thesis using c(1) by (simp add: q0_def Q_def)
        next
          case (Some q1)
          then show ?thesis using wf_dev_quantum_at[OF wf Some] by (simp add: q0_def Q_def)
        qed
        have qpc: "\<not> (Qp < 0 \<or> int (length q0) < Qp + n)" using b(4) lq0 nb by simp
        define bytes where
          "bytes = take (nat n) buf @ replicate (nat n - length buf) (CHR 0x00)"
        have lb: "length bytes = nat n" by (auto simp: bytes_def)
        define q' where "q' = take (nat Qp) q0 @ bytes @ drop (nat Qp + nat n) q0"
        have lq': "int (length q') = Q" using lq0 lb nb b(4) by (simp add: q'_def)
        define dev2 where
          "dev2 = dev1\<lparr>data := (data dev1)[i := Some (slots[nat Sp := Some q'])]\<rparr>"
        have wf2: "wf_dev dev2"
          unfolding dev2_def using wf1 wfn cf1 lq'
          by (intro wf_dev_update wf_node_update) simp_all
        have cf2: "quantum dev2 = Q" "qset dev2 = S" "size_dev dev2 = size_dev dev"
          using cf1 by (simp_all add: dev2_def)
        have qa2: "quantum_at dev2 i' s' =
            (if i' = I \<and> s' = Sn then Some q' else quantum_at dev i' s')" for i' s'
          using i(2) sl_at[of s'] qa1[of i' s'] iI snl Sn
          by (simp add: dev2_def quantum_at_update)
        have cfu: "copy_from_user buf (nat n) = (nat n - length buf, bytes)"
          by (simp add: copy_from_user_def bytes_def)
        note leaf = \<open>r0 = Some i\<close> ws so' sp wq qo' qpc cfu
        have frame2: "\<forall>i s. (i, s) \<noteq> (I, Sn) \<longrightarrow> quantum_at dev2 i s = quantum_at dev i s"
          using qa2 by auto
        have tgt2: "\<exists>bytes. length bytes = nat n \<and>
               quantum_at dev2 I Sn =
                 Some (take (nat Qp) q0 @ bytes @ drop (nat Qp + nat n) q0)"
          using qa2[of I Sn] lb by (auto simp: q'_def)
        show ?thesis
        proof (cases "nat n \<le> length buf")
          case True
          then have bt: "bytes = take (nat n) buf" by (simp add: bytes_def)
          define dev3 where
            "dev3 = (if size_dev dev2 < p + n then dev2\<lparr>size_dev := p + n\<rparr> else dev2)"
          have "scull_write True dev m buf count p =
              Some \<lparr>w_retval = n, w_pos = p + n, w_dev = dev3, w_kmem = m3\<rparr>"
            using leaf True
            by (simp add: wr_simps dev2_def dev3_def q'_def)
          moreover have "wf_dev dev3"
            using wf2 nb p0 pl by (auto simp: dev3_def intro!: wf_dev_size)
          moreover have "quantum dev3 = quantum dev" "qset dev3 = qset dev"
            using cf2 by (auto simp: dev3_def Q_def S_def)
          moreover have "quantum_at dev3 i' s' = quantum_at dev2 i' s'" for i' s'
            by (simp add: dev3_def)
          moreover have "size_dev dev3 = max (size_dev dev) (p + n)"
            using cf2 by (auto simp: dev3_def)
          ultimately show ?thesis
            using frame2 tgt2 qa2[of I Sn] ak3 True bt by (auto simp: q'_def)
        next
          case False
          then have "scull_write True dev m buf count p =
              Some \<lparr>w_retval = - EFAULT, w_pos = p, w_dev = dev2, w_kmem = m3\<rparr>"
            using leaf by (simp add: wr_simps dev2_def q'_def)
          then show ?thesis
            using wf2 cf2 frame2 tgt2 ak3 False by (auto simp: Q_def S_def EFAULT_def)
        qed
      qed
    qed
  qed
qed

subsection \<open>Frame of a read\<close>

lemma scull_read_frame:
  assumes "scull_read locked dev m ubuf count f_pos = Some r"
  shows "\<exists>k. r_dev r = dev\<lparr>data := data dev @ replicate k None\<rparr>"
proof -
  have z: "\<exists>k. dev = dev\<lparr>data := data dev @ replicate k None\<rparr>"
    by (rule exI[of _ 0]) simp
  show ?thesis
  proof (cases "\<not> locked \<or> to_ulong f_pos > size_dev dev")
    case True
    with assms have "r_dev r = dev" by (auto simp: scull_read_def split: if_splits)
    with z show ?thesis by simp
  next
    case False
    from assms False obtain item s_pos q_pos where
      tr: "scull_read_pos (quantum dev) (qset dev) f_pos = Some (item, s_pos, q_pos)"
      by (cases "scull_read_pos (quantum dev) (qset dev) f_pos") (auto simp: scull_read_def Let_def)
    from assms False tr obtain r0 dev1 m1 where
      f: "scull_follow dev item m = Some (r0, dev1, m1)"
      by (cases "scull_follow dev item m") (auto simp: scull_read_def Let_def)
    from assms False tr f have "r_dev r = dev1"
      by (auto simp: scull_read_def Let_def split: option.splits if_splits prod.splits)
    with scull_follow_shape[OF f] show ?thesis by auto
  qed
qed


subsection \<open>The size never shrinks in a write\<close>

lemma scull_write_size_mono:
  assumes "scull_write locked dev m buf count f_pos = Some w"
  shows "size_dev dev \<le> size_dev (w_dev w)"
proof (cases locked)
  case False
  with assms show ?thesis by (auto simp: scull_write_def)
next
  case True
  from assms True obtain item s_pos q_pos where
    tr: "scull_write_pos (quantum dev) (qset dev) f_pos = Some (item, s_pos, q_pos)"
    by (cases "scull_write_pos (quantum dev) (qset dev) f_pos") (auto simp: scull_write_def)
  from assms True tr obtain r0 dev1 m1 where
    f: "scull_follow dev item m = Some (r0, dev1, m1)"
    by (cases "scull_follow dev item m") (auto simp: scull_write_def)
  from scull_follow_shape[OF f] have s1: "size_dev dev1 = size_dev dev" by auto
  from assms True tr f s1 show ?thesis
    by (auto simp: scull_write_def Let_def split: option.splits if_splits prod.splits)
qed

lemma scull_read_unlocked:
  "scull_read False dev m ubuf count f_pos =
     Some \<lparr>r_retval = - ERESTARTSYS, r_buf = [], r_pos = f_pos, r_dev = dev, r_kmem = m\<rparr>"
  by (simp add: scull_read_def)

lemma scull_write_unlocked:
  "scull_write False dev m buf count f_pos =
     Some \<lparr>w_retval = - ERESTARTSYS, w_pos = f_pos, w_dev = dev, w_kmem = m\<rparr>"
  by (simp add: scull_write_def)

lemma scull_read_beyond_chain:
  assumes wf: "wf_dev dev" and pos: "pos_ok dev p" and le: "p \<le> size_dev dev"
    and cnt: "0 \<le> count" "p + count < 2 ^ 64"
    and beyond: "length (data dev) \<le> nat (spec_segment_index (quantum dev) (qset dev) p)"
  shows "scull_read True dev (\<lambda>_. True) ubuf count p =
           Some \<lparr>r_retval = 0, r_buf = [], r_pos = p,
                 r_dev = dev\<lparr>data := data dev @
                   replicate (Suc (nat (spec_segment_index (quantum dev) (qset dev) p))
                                - length (data dev)) None\<rparr>,
                 r_kmem = \<lambda>_. True\<rparr>"
proof -
  define Q where "Q = quantum dev"
  define S where "S = qset dev"
  define I where "I = p div (Q * S)"
  define Sp where "Sp = p mod (Q * S) div Q"
  define Qp where "Qp = p mod (Q * S) mod Q"
  have cfg: "cfg_ok Q S" using wf by (simp add: wf_dev_def Q_def S_def)
  have p0: "0 \<le> p" and pI: "p div (Q * S) < 2 ^ 31"
    using pos by (auto simp: pos_ok_def Q_def S_def)
  note b = coords_bounds[OF cfg p0, folded I_def Sp_def Qp_def]
  have pl: "p < 4611686018427387904" using pos_bound[OF cfg p0 pI] .
  have up: "to_ulong p = p" using p0 pl by (intro to_ulong_id; linarith)
  have tr: "scull_read_pos (quantum dev) (qset dev) p = Some (I, Sp, Qp)"
    using write_pos_math[OF cfg p0 pI]
    by (simp add: read_pos_write_pos Q_def S_def I_def Sp_def Qp_def)
  have sI: "spec_segment_index (quantum dev) (qset dev) p = I"
    by (simp add: spec_segment_index_def I_def Q_def S_def)
  define k where "k = Suc (nat I) - length (data dev)"
  have f: "scull_follow dev I (\<lambda>_. True) =
      Some (Some (nat I), dev\<lparr>data := data dev @ replicate k None\<rparr>, \<lambda>_. True)"
    using scull_follow_allok[OF b(1), of dev] by (simp add: k_def)
  have nd: "(data dev @ replicate k None) ! nat I = None"
    using beyond sI by (simp add: nth_append k_def)
  show ?thesis
    using le nd by (simp add: scull_read_def up tr f Let_def sI k_def)
qed

subsection \<open>Sequences of writes\<close>

lemma scull_write_result:
  assumes "wf_dev dev" and "pos_ok dev p" and "0 \<le> count"
  defines "n \<equiv> min count (quantum dev - spec_intra_offset (quantum dev) (qset dev) p)"
  shows "\<exists>w. scull_write True dev m buf count p = Some w \<and>
           wf_dev (w_dev w) \<and> quantum (w_dev w) = quantum dev \<and> qset (w_dev w) = qset dev \<and>
           ((w_retval w = n \<and> w_pos w = p + n \<and>
             size_dev (w_dev w) = max (size_dev dev) (p + n) \<and> nat n \<le> length buf)
            \<or> (w_retval w \<le> 0 \<and> w_pos w = p \<and> size_dev (w_dev w) = size_dev dev \<and>
                \<not> (m = (\<lambda>_. True) \<and> nat n \<le> length buf))) \<and>
           (m = (\<lambda>_. True) \<longrightarrow> w_kmem w = (\<lambda>_. True))"
  using scull_write_spec[OF assms(1,2,3), of m buf] unfolding n_def
  by (elim exE conjE) blast


lemma Max_insert_max:
  assumes "finite T"
  shows "Max (insert (max a b) T) = Max (insert (a::int) (insert b T))"
proof (cases "T = {}")
  case True
  then show ?thesis by (simp add: max.commute)
next
  case False
  with assms show ?thesis by (simp add: max.assoc)
qed

lemma write_seq_allok:
  assumes "wf_dev dev"
    and "\<forall>(buf, count, f_pos) \<in> set ws. pos_ok dev f_pos \<and> 0 \<le> count \<and> count \<le> int (length buf)"
  shows "\<exists>rs dev'. write_seq dev (\<lambda>_. True) ws = Some (rs, dev', \<lambda>_. True) \<and>
           length rs = length ws \<and> (\<forall>r \<in> set rs. 0 \<le> r) \<and>
           size_dev dev' =
             Max (insert (size_dev dev) (set (map2 (\<lambda>(buf, count, f_pos) r. f_pos + r) ws rs)))"
  using assms
proof (induction ws arbitrary: dev)
  case Nil
  then show ?case by simp
next
  case (Cons x ws)
  obtain buf count p where x: "x = (buf, count, p)" by (cases x) auto
  from Cons.prems(2) x have ok: "pos_ok dev p" "0 \<le> count" "count \<le> int (length buf)"
    by auto
  define n where "n = min count (quantum dev - spec_intra_offset (quantum dev) (qset dev) p)"
  have cfg: "cfg_ok (quantum dev) (qset dev)" using Cons.prems(1) by (simp add: wf_dev_def)
  have p0: "0 \<le> p" using ok(1) by (simp add: pos_ok_def)
  have "spec_intra_offset (quantum dev) (qset dev) p < quantum dev"
    using coords_bounds(5)[OF cfg p0] by (simp add: spec_intra_offset_def)
  then have n0: "0 \<le> n" using ok(2) by (simp add: n_def)
  have nl: "nat n \<le> length buf" using ok(3) by (simp add: n_def)
  from scull_write_result[OF Cons.prems(1) ok(1,2), of "\<lambda>_. True" buf, folded n_def] nl
  obtain w where w: "scull_write True dev (\<lambda>_. True) buf count p = Some w"
    and wf': "wf_dev (w_dev w)" and q: "quantum (w_dev w) = quantum dev"
    "qset (w_dev w) = qset dev"
    and r: "w_retval w = n" "size_dev (w_dev w) = max (size_dev dev) (p + n)"
    and k: "w_kmem w = (\<lambda>_. True)"
    by blast
  have "\<forall>(buf, count, f_pos) \<in> set ws.
          pos_ok (w_dev w) f_pos \<and> 0 \<le> count \<and> count \<le> int (length buf)"
    using Cons.prems(2) q by (auto simp: pos_ok_def)
  from Cons.IH[OF wf' this] obtain rs dev' where
    ih: "write_seq (w_dev w) (\<lambda>_. True) ws = Some (rs, dev', \<lambda>_. True)"
    "length rs = length ws" "\<forall>r \<in> set rs. 0 \<le> r"
    "size_dev dev' = Max (insert (size_dev (w_dev w))
        (set (map2 (\<lambda>(buf, count, f_pos) r. f_pos + r) ws rs)))"
    by blast
  have "write_seq dev (\<lambda>_. True) (x # ws) = Some (n # rs, dev', \<lambda>_. True)"
    using x w k r(1) ih(1) by simp
  moreover have "size_dev dev' = Max (insert (size_dev dev)
        (set (map2 (\<lambda>(buf, count, f_pos) r. f_pos + r) (x # ws) (n # rs))))"
    using ih(4) r(2) x by (simp add: Max_insert_max)
  ultimately show ?case using ih(2,3) n0 by auto
qed

lemma write_seq_positive:
  assumes "wf_dev dev"
    and "\<forall>(buf, count, f_pos) \<in> set ws. pos_ok dev f_pos \<and> 0 \<le> count"
    and "write_seq dev m ws = Some (rs, dev', m')"
    and "\<forall>r \<in> set rs. 0 < r"
  shows "length rs = length ws \<and>
         size_dev dev' =
           Max (insert (size_dev dev) (set (map2 (\<lambda>(buf, count, f_pos) r. f_pos + r) ws rs)))"
  using assms
proof (induction ws arbitrary: dev m rs)
  case Nil
  then show ?case by simp
next
  case (Cons x ws)
  obtain buf count p where x: "x = (buf, count, p)" by (cases x) auto
  from Cons.prems(2) x have ok: "pos_ok dev p" "0 \<le> count" by auto
  define n where "n = min count (quantum dev - spec_intra_offset (quantum dev) (qset dev) p)"
  from scull_write_result[OF Cons.prems(1) ok(1,2), of m buf, folded n_def]
  obtain w where w: "scull_write True dev m buf count p = Some w"
    and wf': "wf_dev (w_dev w)" and q: "quantum (w_dev w) = quantum dev"
    "qset (w_dev w) = qset dev"
    and r: "(w_retval w = n \<and> size_dev (w_dev w) = max (size_dev dev) (p + n)) \<or>
            w_retval w \<le> 0"
    by blast
  from Cons.prems(3) x w obtain rs1 where
    s: "write_seq (w_dev w) (w_kmem w) ws = Some (rs1, dev', m')" and rs: "rs = w_retval w # rs1"
    by (auto split: option.splits)
  from Cons.prems(4) rs have pos: "0 < w_retval w" "\<forall>r \<in> set rs1. 0 < r" by auto
  with r have r': "w_retval w = n" "size_dev (w_dev w) = max (size_dev dev) (p + n)" by auto
  have "\<forall>(buf, count, f_pos) \<in> set ws. pos_ok (w_dev w) f_pos \<and> 0 \<le> count"
    using Cons.prems(2) q by (auto simp: pos_ok_def)
  from Cons.IH[OF wf' this s pos(2)]
  have ih: "length rs1 = length ws"
    "size_dev dev' = Max (insert (size_dev (w_dev w))
        (set (map2 (\<lambda>(buf, count, f_pos) r. f_pos + r) ws rs1)))"
    by auto
  show ?case using ih r' rs x by (simp add: Max_insert_max)
qed

subsection \<open>Stored bytes survive the calls that do not write over them\<close>

lemma splice_outside:
  assumes "length bytes = n" and "c + n \<le> length q"
    and "a + k \<le> c \<or> c + n \<le> a"
  shows "take k (drop a (take c q @ bytes @ drop (c + n) q)) = take k (drop a q)"
proof -
  define X where "X = take c q @ bytes @ drop (c + n) q"
  have lX: "length X = length q" using assms(1,2) by (simp add: X_def)
  have nX: "X ! j = q ! j" if "j < c \<or> c + n \<le> j" "j < length q" for j
    using that(1)
  proof
    assume "j < c"
    then show ?thesis using assms(2) by (simp add: X_def nth_append)
  next
    assume h: "c + n \<le> j"
    have l: "length (take c q @ bytes) = c + n" using assms(1,2) by simp
    have "X = (take c q @ bytes) @ drop (c + n) q" by (simp add: X_def)
    then have "X ! j = drop (c + n) q ! (j - (c + n))"
      using h l by (simp only: nth_append) simp
    also have "\<dots> = q ! j" using h that(2) by simp
    finally show ?thesis .
  qed
  have "take k (drop a X) = take k (drop a q)"
  proof (rule nth_equalityI)
    show "length (take k (drop a X)) = length (take k (drop a q))" by (simp add: lX)
  next
    fix i
    assume "i < length (take k (drop a X))"
    then have i: "i < k" "a + i < length q" by (auto simp: lX)
    from assms(3) i have "a + i < c \<or> c + n \<le> a + i" by auto
    from nX[OF this i(2)] show "take k (drop a X) ! i = take k (drop a q) ! i"
      using i by (simp add: lX)
  qed
  then show ?thesis by (simp add: X_def)
qed

lemma splice_inside:
  assumes "length bytes = n" and "c + n \<le> length q"
  shows "take n (drop c (take c q @ bytes @ drop (c + n) q)) = bytes"
  using assms by simp

lemma coords_base:
  assumes "cfg_ok Q S" "0 \<le> p"
  shows "p = int (nat (spec_segment_index Q S p)) * (Q * S) + int (nat (spec_slot_index Q S p)) * Q
             + spec_intra_offset Q S p"
proof -
  note b = coords_bounds[OF assms]
  have "p = p div (Q * S) * (Q * S) + p mod (Q * S)" by (simp only: div_mult_mod_eq)
  also have "p mod (Q * S) = p mod (Q * S) div Q * Q + p mod (Q * S) mod Q"
    by (simp only: div_mult_mod_eq)
  finally show ?thesis using b(1,2)
    by (simp add: spec_segment_index_def spec_slot_index_def spec_intra_offset_def)
qed

lemma stores_iff:
  "stores dev p bs \<longleftrightarrow>
     p + int (length bs) \<le> size_dev dev \<and>
     (\<exists>q. quantum_at dev (nat (spec_segment_index (quantum dev) (qset dev) p))
             (nat (spec_slot_index (quantum dev) (qset dev) p)) = Some q \<and>
          take (length bs) (drop (nat (spec_intra_offset (quantum dev) (qset dev) p)) q) = bs)"
  by (simp add: stores_def split: option.splits)

lemma scull_write_success:
  assumes wf: "wf_dev dev" and pos: "pos_ok dev p" and cnt: "0 \<le> count"
    and w: "scull_write True dev m buf count p = Some w" and ok: "0 < w_retval w"
  shows "w_retval w = min count (quantum dev - spec_intra_offset (quantum dev) (qset dev) p)"
    and "nat (w_retval w) \<le> length buf"
    and "stores (w_dev w) p (take (nat (w_retval w)) buf)"
    and "wf_dev (w_dev w)" and "quantum (w_dev w) = quantum dev" and "qset (w_dev w) = qset dev"
proof -
  define I where "I = nat (spec_segment_index (quantum dev) (qset dev) p)"
  define Sn where "Sn = nat (spec_slot_index (quantum dev) (qset dev) p)"
  define Qp where "Qp = spec_intra_offset (quantum dev) (qset dev) p"
  define n where "n = min count (quantum dev - Qp)"
  define q0 where "q0 = (case quantum_at dev I Sn of
                    None \<Rightarrow> replicate (nat (quantum dev)) (CHR 0x00) | Some q \<Rightarrow> q)"
  have cfg: "cfg_ok (quantum dev) (qset dev)" using wf by (simp add: wf_dev_def)
  have p0: "0 \<le> p" using pos by (simp add: pos_ok_def)
  have qp: "0 \<le> Qp" "Qp < quantum dev"
    using coords_bounds(4,5)[OF cfg p0] by (simp_all add: Qp_def spec_intra_offset_def)
  have n0: "0 \<le> n" "n \<le> quantum dev - Qp" using cnt qp by (simp_all add: n_def)
  have lq0: "int (length q0) = quantum dev"
  proof (cases "quantum_at dev I Sn")
    case None
    then show ?thesis using qp by (simp add: q0_def)
  next
    case (Some q1)
    then show ?thesis using wf_dev_quantum_at[OF wf Some] by (simp add: q0_def)
  qed
  from scull_write_spec[OF wf pos cnt, of m buf] w
  have s: "wf_dev (w_dev w) \<and> quantum (w_dev w) = quantum dev \<and> qset (w_dev w) = qset dev \<and>
           ((w_retval w = n \<and> w_pos w = p + n \<and>
             size_dev (w_dev w) = max (size_dev dev) (p + n) \<and> nat n \<le> length buf \<and>
             quantum_at (w_dev w) I Sn =
               Some (take (nat Qp) q0 @ take (nat n) buf @ drop (nat Qp + nat n) q0))
            \<or> w_retval w \<le> 0)"
    unfolding I_def Sn_def Qp_def n_def q0_def by (elim exE conjE) auto
  with ok have r: "w_retval w = n" "size_dev (w_dev w) = max (size_dev dev) (p + n)"
    "nat n \<le> length buf"
    "quantum_at (w_dev w) I Sn =
       Some (take (nat Qp) q0 @ take (nat n) buf @ drop (nat Qp + nat n) q0)"
    and c: "wf_dev (w_dev w)" "quantum (w_dev w) = quantum dev" "qset (w_dev w) = qset dev"
    by auto
  show "w_retval w = min count (quantum dev - spec_intra_offset (quantum dev) (qset dev) p)"
    using r(1) by (simp add: n_def Qp_def)
  show "nat (w_retval w) \<le> length buf" using r(1,3) by simp
  show "wf_dev (w_dev w)" "quantum (w_dev w) = quantum dev" "qset (w_dev w) = qset dev"
    using c by simp_all
  have lt: "length (take (nat n) buf) = nat n" using r(3) by simp
  have fits: "nat Qp + nat n \<le> length q0" using lq0 qp n0 by linarith
  have "take (nat n) (drop (nat Qp) (take (nat Qp) q0 @ take (nat n) buf @ drop (nat Qp + nat n) q0))
          = take (nat n) buf"
    using lt fits by (rule splice_inside)
  then show "stores (w_dev w) p (take (nat (w_retval w)) buf)"
    using r(1,2,4) c(2,3) n0 lt
    by (simp add: stores_iff I_def[symmetric] Sn_def[symmetric] Qp_def[symmetric])
qed

lemma stores_read:
  assumes "scull_read locked dev m ubuf count p' = Some r" and "stores dev p bs"
  shows "stores (r_dev r) p bs"
proof -
  from scull_read_frame[OF assms(1)] obtain k where
    "r_dev r = dev\<lparr>data := data dev @ replicate k None\<rparr>" by blast
  with assms(2) show ?thesis by (simp add: stores_iff)
qed

lemma wf_dev_read:
  assumes "scull_read locked dev m ubuf count p' = Some r" and "wf_dev dev"
  shows "wf_dev (r_dev r) \<and> quantum (r_dev r) = quantum dev \<and> qset (r_dev r) = qset dev"
proof -
  from scull_read_frame[OF assms(1)] obtain k where
    "r_dev r = dev\<lparr>data := data dev @ replicate k None\<rparr>" by blast
  with assms(2) show ?thesis by (simp add: wf_dev_append)
qed

lemma splice_disjoint:
  assumes "length bytes = n" and "c + n \<le> length q"
    and "k = 0 \<or> n = 0 \<or> a + k \<le> c \<or> c + n \<le> a"
  shows "take k (drop a (take c q @ bytes @ drop (c + n) q)) = take k (drop a q)"
proof (cases "k = 0 \<or> n = 0")
  case True
  then show ?thesis
  proof
    assume "k = 0"
    then show ?thesis by simp
  next
    assume "n = 0"
    with assms(1) have "take c q @ bytes @ drop (c + n) q = q" by simp
    then show ?thesis by (simp only:)
  qed
next
  case False
  with assms(3) have "a + k \<le> c \<or> c + n \<le> a" by blast
  from splice_outside[OF assms(1,2) this] show ?thesis .
qed

lemma wf_dev_write:
  assumes "wf_dev dev" and "pos_ok dev p" and "0 \<le> count"
    and "scull_write locked dev m buf count p = Some w"
  shows "wf_dev (w_dev w) \<and> quantum (w_dev w) = quantum dev \<and> qset (w_dev w) = qset dev"
proof (cases locked)
  case False
  with assms show ?thesis by (auto simp: scull_write_unlocked)
next
  case True
  from scull_write_result[OF assms(1,2,3), of m buf] assms(4) True show ?thesis
    by (elim exE conjE) auto
qed

lemma stores_write:
  assumes wf: "wf_dev dev" and pos': "pos_ok dev p'" and cnt': "0 \<le> count'"
    and w: "scull_write locked dev m buf count' p' = Some w"
    and st: "stores dev p bs" and p0: "0 \<le> p" and len: "int (length bs) \<le> len"
    and nov: "\<not> (max p' p < min (p' + count') (p + len))"
  shows "stores (w_dev w) p bs"
proof (cases locked)
  case False
  with w st show ?thesis by (auto simp: scull_write_unlocked)
next
  case True
  define Q where "Q = quantum dev"
  define S where "S = qset dev"
  define I where "I = nat (spec_segment_index Q S p)"
  define Sn where "Sn = nat (spec_slot_index Q S p)"
  define Qp where "Qp = spec_intra_offset Q S p"
  define I' where "I' = nat (spec_segment_index Q S p')"
  define Sn' where "Sn' = nat (spec_slot_index Q S p')"
  define Qp' where "Qp' = spec_intra_offset Q S p'"
  define n' where "n' = min count' (Q - Qp')"
  define q0 where "q0 = (case quantum_at dev I' Sn' of
                    None \<Rightarrow> replicate (nat Q) (CHR 0x00) | Some q \<Rightarrow> q)"
  define k where "k = length bs"
  have cfg: "cfg_ok Q S" using wf by (simp add: wf_dev_def Q_def S_def)
  have p0': "0 \<le> p'" using pos' by (simp add: pos_ok_def)
  have qp': "0 \<le> Qp'" "Qp' < Q"
    using coords_bounds(4,5)[OF cfg p0'] by (simp_all add: Qp'_def spec_intra_offset_def)
  have qp: "0 \<le> Qp"
    using coords_bounds(4)[OF cfg p0] by (simp add: Qp_def spec_intra_offset_def)
  have n0: "0 \<le> n'" "n' \<le> Q - Qp'" "n' \<le> count'" using cnt' qp' by (simp_all add: n'_def)
  from st obtain q where sz: "p + int k \<le> size_dev dev"
    and q: "quantum_at dev I Sn = Some q" and tk: "take k (drop (nat Qp) q) = bs"
    by (auto simp: stores_iff I_def Sn_def Qp_def Q_def S_def k_def)
  have lq: "int (length q) = Q" using wf_dev_quantum_at[OF wf q] by (simp add: Q_def)
  from scull_write_size_mono[OF w] sz have sz': "p + int k \<le> size_dev (w_dev w)" by simp
  from wf_dev_write[OF wf pos' cnt' w]
  have c: "quantum (w_dev w) = Q" "qset (w_dev w) = S" by (simp_all add: Q_def S_def)
  from scull_write_spec[OF wf pos' cnt', of m buf] w True
  have frame: "\<forall>i s. (i, s) \<noteq> (I', Sn') \<longrightarrow> quantum_at (w_dev w) i s = quantum_at dev i s"
    and tgt: "quantum_at (w_dev w) I' Sn' = quantum_at dev I' Sn' \<or>
            (\<exists>bytes. length bytes = nat n' \<and>
               quantum_at (w_dev w) I' Sn' =
                 Some (take (nat Qp') q0 @ bytes @ drop (nat Qp' + nat n') q0))"
    unfolding I'_def Sn'_def Qp'_def n'_def q0_def Q_def S_def by (elim exE conjE; simp)+
  have "\<exists>q'. quantum_at (w_dev w) I Sn = Some q' \<and> take k (drop (nat Qp) q') = bs"
  proof (cases "(I, Sn) = (I', Sn')")
    case False
    with frame q tk show ?thesis by auto
  next
    case same: True
    from tgt show ?thesis
    proof
      assume "quantum_at (w_dev w) I' Sn' = quantum_at dev I' Sn'"
      with same q tk show ?thesis by auto
    next
      assume "\<exists>bytes. length bytes = nat n' \<and>
               quantum_at (w_dev w) I' Sn' =
                 Some (take (nat Qp') q0 @ bytes @ drop (nat Qp' + nat n') q0)"
      then obtain bytes where lb: "length bytes = nat n'"
        and new: "quantum_at (w_dev w) I' Sn' =
                 Some (take (nat Qp') q0 @ bytes @ drop (nat Qp' + nat n') q0)"
        by blast
      have q0q: "q0 = q" using same q by (simp add: q0_def)
      have fits: "nat Qp' + nat n' \<le> length q" using lq qp' n0 by linarith
      have e: "p = int I * (Q * S) + int Sn * Q + Qp"
        unfolding I_def Sn_def Qp_def by (rule coords_base[OF cfg p0])
      have e': "p' = int I' * (Q * S) + int Sn' * Q + Qp'"
        unfolding I'_def Sn'_def Qp'_def by (rule coords_base[OF cfg p0'])
      from same e e' have d: "p - Qp = p' - Qp'" by simp
      have "k = 0 \<or> nat n' = 0 \<or> nat Qp + k \<le> nat Qp' \<or> nat Qp' + nat n' \<le> nat Qp"
      proof (cases "k = 0 \<or> n' = 0")
        case True
        then show ?thesis by auto
      next
        case False
        then have pk: "0 < int k" "0 < n'" using n0 by auto
        then have pl: "0 < len" "0 < count'" using len n0 unfolding k_def by linarith+
        from nov have "min (p' + count') (p + len) \<le> max p' p" by (simp only: not_less)
        then have "p' + count' \<le> p \<or> p + len \<le> p'"
          using pl unfolding max_def min_def by (auto split: if_splits)
        then have "Qp' + n' \<le> Qp \<or> Qp + int k \<le> Qp'"
          using d n0 len unfolding k_def by linarith
        then show ?thesis using qp qp' n0 by linarith
      qed
      from splice_disjoint[OF lb fits this] tk
      have "take k (drop (nat Qp) (take (nat Qp') q @ bytes @ drop (nat Qp' + nat n') q)) = bs"
        by simp
      with new same q0q show ?thesis by auto
    qed
  qed
  with sz' c show ?thesis
    by (simp add: stores_iff I_def Sn_def Qp_def k_def)
qed

lemma read_stored:
  assumes wf: "wf_dev dev" and pos: "pos_ok dev p" and st: "stores dev p bs"
    and cnt: "0 \<le> count" "p + count < 2 ^ 64"
    and k: "int (length bs) = min count (quantum dev - spec_intra_offset (quantum dev) (qset dev) p)"
    and ub: "length bs \<le> ubuf"
  shows "\<exists>r. scull_read True dev m ubuf count p = Some r \<and>
           r_retval r = int (length bs) \<and> r_buf r = bs \<and> r_pos r = p + int (length bs)"
proof -
  from st obtain q where sz: "p + int (length bs) \<le> size_dev dev"
    and q: "quantum_at dev (nat (p div (quantum dev * qset dev)))
                 (nat (p mod (quantum dev * qset dev) div quantum dev)) = Some q"
    and tk: "take (length bs)
               (drop (nat (p mod (quantum dev * qset dev) mod quantum dev)) q) = bs"
    by (auto simp: stores_iff spec_segment_index_def spec_slot_index_def spec_intra_offset_def)
  have n: "min count (min (size_dev dev - p)
             (quantum dev - p mod (quantum dev * qset dev) mod quantum dev)) = int (length bs)"
    using k sz by (simp add: spec_intra_offset_def)
  have ns: "\<not> size_dev dev < p" using sz by simp
  from scull_read_spec[OF wf pos cnt, of m ubuf] ns q n ub tk show ?thesis
    by (auto simp: Let_def n)
qed

lemma stores_run_ops:
  assumes "run_ops dev m ops = Some (dev', m')" and "wf_dev dev" and "stores dev p bs"
    and "0 \<le> p" and "int (length bs) \<le> len"
    and "\<forall>x \<in> set ops. op_ok dev x \<and> \<not> write_overlaps x p (p + len)"
  shows "stores dev' p bs \<and> wf_dev dev' \<and> quantum dev' = quantum dev \<and> qset dev' = qset dev"
  using assms
proof (induction ops arbitrary: dev m)
  case Nil
  then show ?case by simp
next
  case (Cons x ops)
  from Cons.prems(1) obtain d1 m1 where
    step: "run_op dev m x = Some (d1, m1)" and rest: "run_ops d1 m1 ops = Some (dev', m')"
    by (auto split: option.splits)
  have one: "stores d1 p bs \<and> wf_dev d1 \<and> quantum d1 = quantum dev \<and> qset d1 = qset dev"
  proof (cases x)
    case (Read locked ubuf count f_pos)
    with step obtain r where r: "scull_read locked dev m ubuf count f_pos = Some r"
      and d: "d1 = r_dev r"
      by (auto split: option.splits)
    from stores_read[OF r Cons.prems(3)] wf_dev_read[OF r Cons.prems(2)] d
    show ?thesis by simp
  next
    case (Write locked buf count f_pos)
    with step obtain w where w: "scull_write locked dev m buf count f_pos = Some w"
      and d: "d1 = w_dev w"
      by (auto split: option.splits)
    from Cons.prems(6) Write have ok: "pos_ok dev f_pos" "0 \<le> count"
      and nov: "\<not> (max f_pos p < min (f_pos + count) (p + len))"
      by auto
    from stores_write[OF Cons.prems(2) ok w Cons.prems(3,4,5) nov]
      wf_dev_write[OF Cons.prems(2) ok w] d
    show ?thesis by simp
  qed
  have ok': "\<forall>x \<in> set ops. op_ok d1 x \<and> \<not> write_overlaps x p (p + len)"
  proof
    fix y assume y: "y \<in> set ops"
    with Cons.prems(6) have "op_ok dev y" "\<not> write_overlaps y p (p + len)" by auto
    moreover have "op_ok d1 y = op_ok dev y"
      using one by (cases y) (simp_all add: pos_ok_def)
    ultimately show "op_ok d1 y \<and> \<not> write_overlaps y p (p + len)" by simp
  qed
  from one have "stores d1 p bs" "wf_dev d1" by simp_all
  from Cons.IH[OF rest this(2,1) Cons.prems(4,5) ok'] one show ?case by simp
qed

subsection \<open>The invariant holds in every reachable state\<close>

lemma copy_from_user_length: "copy_from_user buf n = (left, bytes) \<Longrightarrow> length bytes = n"
  by (auto simp: copy_from_user_def)

lemma scull_write_wf:
  assumes wf: "wf_dev dev" and w: "scull_write locked dev m buf count f_pos = Some w"
  shows "wf_dev (w_dev w) \<and> quantum (w_dev w) = quantum dev \<and> qset (w_dev w) = qset dev"
proof (cases locked)
  case False
  with w wf show ?thesis by (auto simp: scull_write_unlocked)
next
  case True
  define Q where "Q = quantum dev"
  define S where "S = qset dev"
  have cfg: "cfg_ok Q S" using wf by (simp add: wf_dev_def Q_def S_def)
  note c = cfg_okD[OF cfg]
  from w True obtain item s_pos q_pos where
    tr: "scull_write_pos (quantum dev) (qset dev) f_pos = Some (item, s_pos, q_pos)"
    by (cases "scull_write_pos (quantum dev) (qset dev) f_pos") (auto simp: scull_write_def)
  from w True tr obtain r0 dev1 m1 where
    f: "scull_follow dev item m = Some (r0, dev1, m1)"
    by (cases "scull_follow dev item m") (auto simp: scull_write_def)
  from scull_follow_shape[OF f] obtain k where
    d1: "dev1 = dev\<lparr>data := data dev @ replicate k None\<rparr>"
    and r0: "case r0 of Some i \<Rightarrow> 0 \<le> item \<and> i = nat item \<and> i < length (data dev1)
               | None \<Rightarrow> length (data dev1) \<le> nat item \<or> item < 0"
    by blast
  have wf1: "wf_dev dev1" using wf d1 by (simp add: wf_dev_append)
  have cf1: "quantum dev1 = Q" "qset dev1 = S" using d1 by (simp_all add: Q_def S_def)
  show ?thesis
  proof (cases r0)
    case None
    with w True tr f have "w_dev w = dev1" by (auto simp: scull_write_def)
    then show ?thesis using wf1 cf1 by (simp add: Q_def S_def)
  next
    case (Some i)
    with r0 have i: "i < length (data dev1)" by simp
    obtain so m2 where ws: "write_slots (qset dev) (data dev1 ! i) m1 = (so, m2)"
      by fastforce
    show ?thesis
    proof (cases so)
      case None
      with w True tr f Some ws have "w_dev w = dev1" by (auto simp: scull_write_def)
      then show ?thesis using wf1 cf1 by (simp add: Q_def S_def)
    next
      case (Some slots)
      note so = this
      have wfn: "wf_node Q S (Some slots)"
      proof (cases "data dev1 ! i")
        case None
        with ws so have "slots = replicate (nat S) None"
          by (auto simp: write_slots_def S_def split: prod.splits bool.splits)
        then show ?thesis using c(2) by (simp add: wf_node_replicate)
      next
        case (Some sl)
        with ws so have "sl = slots" by (simp add: write_slots_def)
        with Some i wf1 cf1 show ?thesis by (auto simp: wf_dev_def list_all_length)
      qed
      define dev1' where "dev1' = dev1\<lparr>data := (data dev1)[i := Some slots]\<rparr>"
      have wf1': "wf_dev dev1'"
        unfolding dev1'_def using wf1 wfn cf1 by (intro wf_dev_update) simp_all
      show ?thesis
      proof (cases "s_pos < 0 \<or> int (length slots) \<le> s_pos")
        case True
        with w \<open>locked\<close> tr f \<open>r0 = Some i\<close> ws so show ?thesis by (simp add: scull_write_def)
      next
        case sp: False
        obtain qo m3 where wq: "write_quantum (quantum dev) (slots ! nat s_pos) m2 = (qo, m3)"
          by fastforce
        show ?thesis
        proof (cases qo)
          case None
          with w \<open>locked\<close> tr f \<open>r0 = Some i\<close> ws so sp wq have "w_dev w = dev1'"
            by (auto simp: scull_write_def dev1'_def)
          then show ?thesis using wf1' cf1 by (simp add: Q_def S_def dev1'_def)
        next
          case (Some q)
          have lq: "int (length q) = Q"
          proof (cases "slots ! nat s_pos")
            case None
            with wq Some have "q = replicate (nat Q) (CHR 0x00)"
              by (auto simp: write_quantum_def Q_def split: prod.splits bool.splits)
            then show ?thesis using c(1) by simp
          next
            case (Some q1)
            with wq \<open>qo = Some q\<close> have "q1 = q" by (simp add: write_quantum_def)
            with Some have "Some q \<in> set slots" using sp
              by (metis nth_mem nat_less_iff not_le not_less)
            then show ?thesis using wfn by (auto simp: wf_node_def wf_slot_def list_all_iff)
          qed
          define count1 where "count1 =
            (if count > to_ulong (to_int (quantum dev - q_pos))
             then to_ulong (to_int (quantum dev - q_pos)) else count)"
          show ?thesis
          proof (cases "q_pos < 0 \<or> int (length q) < q_pos + count1")
            case True
            with w \<open>locked\<close> tr f \<open>r0 = Some i\<close> ws so sp wq Some show ?thesis
              by (simp add: scull_write_def Let_def count1_def)
          next
            case qp: False
            obtain left bytes where cf: "copy_from_user buf (nat count1) = (left, bytes)"
              by fastforce
            have lb: "length bytes = nat count1" using copy_from_user_length[OF cf] .
            define q' where "q' = take (nat q_pos) q @ bytes @ drop (nat q_pos + nat count1) q"
            have lq': "int (length q') = Q"
            proof (cases "0 \<le> count1")
              case True
              then have "nat q_pos + nat count1 \<le> length q" using qp by linarith
              then show ?thesis using lq lb by (simp add: q'_def)
            next
              case False
              then have "bytes = []" "nat count1 = 0" using lb by simp_all
              then show ?thesis using lq by (simp add: q'_def)
            qed
            define dev2 where
              "dev2 = dev1\<lparr>data := (data dev1)[i := Some (slots[nat s_pos := Some q'])]\<rparr>"
            have wf2: "wf_dev dev2"
              unfolding dev2_def using wf1 wfn cf1 lq'
              by (intro wf_dev_update wf_node_update) simp_all
            have cf2: "quantum dev2 = Q" "qset dev2 = S" using cf1 by (simp_all add: dev2_def)
            have u: "0 \<le> to_ulong x" "to_ulong x < 2 ^ 64" for x
              by (simp_all add: to_ulong_def)
            from w \<open>locked\<close> tr f \<open>r0 = Some i\<close> ws so sp wq Some qp cf
            have "w_dev w = dev2 \<or>
                  w_dev w = dev2\<lparr>size_dev := to_ulong (to_long (f_pos + count1))\<rparr>"
              by (auto simp: scull_write_def Let_def count1_def[symmetric] dev2_def q'_def
                  split: if_splits)
            then show ?thesis using wf2 cf2 u wf_dev_size[OF wf2 u]
              by (auto simp: Q_def S_def)
          qed
        qed
      qed
    qed
  qed
qed

lemma trim_loop_wf: "list_all (wf_node Q S) ch \<Longrightarrow> trim_loop S ch"
  by (induction S ch rule: trim_loop.induct) (auto simp: wf_node_def)

lemma scull_trim_wf:
  assumes "wf_dev dev"
  shows "scull_trim p dev =
           Some (dev\<lparr>size_dev := 0, quantum := scull_quantum p, qset := scull_qset p, data := []\<rparr>)"
  using assms trim_loop_wf[of "quantum dev" "qset dev" "data dev"]
  by (simp add: scull_trim_def wf_dev_def)

lemma reachable_wf:
  assumes "cfg_ok (scull_quantum p) (scull_qset p)" and "reachable p dev"
  shows "wf_dev dev \<and> quantum dev = scull_quantum p \<and> qset dev = scull_qset p"
  using assms(2)
proof (induction rule: reachable.induct)
  case reach_init
  then show ?case using assms(1) by (simp add: wf_dev_def)
next
  case (reach_open dev wronly locked ret dev')
  then show ?case using assms(1) scull_trim_wf[of dev p]
    by (auto simp: scull_open_def wf_dev_def split: if_splits option.splits)
next
  case (reach_read dev locked m ubuf count f_pos r)
  then show ?case using wf_dev_read[of locked dev m ubuf count f_pos r] by simp
next
  case (reach_write dev locked m buf count f_pos w)
  then show ?case using scull_write_wf[of dev locked m buf count f_pos w] by simp
qed

lemma scull_init_reachable:
  assumes "scull_init p env m = Some (0, ms, m')" and "scull_devices ms = Some devs"
  shows "length devs = 4 \<and> (\<forall>dev \<in> set devs. reachable p dev)"
proof -
  have "devs = replicate 4 \<lparr>data = [], quantum = scull_quantum p, qset = scull_qset p,
                             size_dev = 0\<rparr>"
    using assms
    by (auto simp: scull_init_def Let_def upt_rec numeral_eq_Suc ENOMEM_def
        split: if_splits prod.splits bool.splits option.splits)
  then show ?thesis by (auto intro: reach_init)
qed

section \<open>The claims\<close>

text \<open>
  C5 (as stated, for every \<open>pos \<ge> 0\<close>, \<open>quantum > 0\<close>, \<open>qset > 0\<close>) fails on the code:
  with \<open>quantum = qset = 1\<close> and \<open>pos = 2^31\<close> the segment index \<open>pos / itemsize = 2^31\<close>
  does not fit the \<^verbatim>\<open>int item\<close> it is stored in, and both translations give
  \<open>item = - 2^31\<close>.
\<close>

theorem translation_int_counterexample:
  "scull_read_pos 1 1 2147483648 = Some (- 2147483648, 0, 0) \<and>
   scull_write_pos 1 1 2147483648 = Some (- 2147483648, 0, 0) \<and>
   spec_segment_index 1 1 2147483648 = 2147483648"
  by (simp add: scull_read_pos_def scull_write_pos_def spec_segment_index_def
      to_int_def to_long_def signed_divide_int_def signed_modulo_int_def)

text \<open>
  C5, amended: the translations inlined in \<^verbatim>\<open>scull_read\<close> and in \<^verbatim>\<open>scull_write\<close> compute
  the same function on every input; and for every \<open>pos \<ge> 0\<close>, \<open>quantum > 0\<close>,
  \<open>qset > 0\<close> whose \<open>itemsize = quantum * qset\<close> and whose segment index
  \<open>pos / itemsize\<close> are below \<open>2^31\<close> (they fit an \<^verbatim>\<open>int\<close>), both give
  \<open>segment_index = pos / itemsize\<close>, \<open>slot_index = (pos mod itemsize) / quantum\<close> and
  \<open>intra_offset = (pos mod itemsize) mod quantum\<close>.
\<close>

theorem translation_correct:
  "scull_read_pos quantum' qset' pos = scull_write_pos quantum' qset' pos \<and>
   (0 \<le> pos \<and> 0 < quantum' \<and> 0 < qset' \<and> quantum' * qset' < 2 ^ 31 \<and>
    pos div (quantum' * qset') < 2 ^ 31 \<longrightarrow>
    scull_write_pos quantum' qset' pos =
      Some (spec_segment_index quantum' qset' pos, spec_slot_index quantum' qset' pos,
            spec_intra_offset quantum' qset' pos))"
  using write_pos_math[of quantum' qset' pos]
  by (simp add: read_pos_write_pos cfg_ok_def spec_segment_index_def spec_slot_index_def
      spec_intra_offset_def)

theorem translation_correct_witness:
  "scull_read_pos 4 2 10 = scull_write_pos 4 2 10 \<and>
   scull_write_pos 4 2 10 = Some (1, 0, 2) \<and>
   spec_segment_index 4 2 10 = 1 \<and> spec_slot_index 4 2 10 = 0 \<and> spec_intra_offset 4 2 10 = 2"
  using translation_correct[of 4 2 10]
  by (simp add: spec_segment_index_def spec_slot_index_def spec_intra_offset_def)

text \<open>
  C9: a read that obtained the lock, at an offset strictly greater than the size of
  the device, returns 0 (success, no bytes), stores nothing in the user buffer and
  leaves \<^verbatim>\<open>*f_pos\<close>, the device and the allocator as they were. \<open>size_dev\<close> is an
  \<^verbatim>\<open>unsigned long\<close> and \<open>f_pos\<close> a \<^verbatim>\<open>loff_t\<close>.
\<close>

theorem read_past_size:
  assumes "0 \<le> size_dev dev" and "size_dev dev < f_pos" and "f_pos < 2 ^ 63"
  shows "scull_read True dev m ubuf count f_pos =
           Some \<lparr>r_retval = 0, r_buf = [], r_pos = f_pos, r_dev = dev, r_kmem = m\<rparr>"
proof -
  have "to_ulong f_pos = f_pos" using assms by (intro to_ulong_id) auto
  then show ?thesis using assms(2) by (simp add: scull_read_def)
qed

theorem read_past_size_witness:
  "(0::int) \<le> 8 \<and> (8::int) < 9 \<and> (9::int) < 2 ^ 63 \<and>
   scull_read True \<lparr>data = [], quantum = 4, qset = 2, size_dev = 8\<rparr> (\<lambda>_. True) 1 1 9 =
     Some \<lparr>r_retval = 0, r_buf = [], r_pos = 9,
           r_dev = \<lparr>data = [], quantum = 4, qset = 2, size_dev = 8\<rparr>, r_kmem = \<lambda>_. True\<rparr>"
  using read_past_size[of "\<lparr>data = [], quantum = 4, qset = 2, size_dev = 8\<rparr>" 9 "\<lambda>_. True" 1 1]
  by simp

text \<open>
  C2: when \<^verbatim>\<open>scull_follow\<close> returns \<^verbatim>\<open>NULL\<close> because \<^verbatim>\<open>kzalloc\<close> failed, \<^verbatim>\<open>scull_write\<close>
  leaves through \<^verbatim>\<open>goto out\<close> with \<^verbatim>\<open>retval\<close> still 0: on an empty device whose first
  allocation fails, a write of one byte returns 0 and not \<^verbatim>\<open>-ENOMEM\<close>.
\<close>

theorem write_follow_failure_returns_zero:
  "scull_write True \<lparr>data = [], quantum = 4, qset = 2, size_dev = 0\<rparr> (\<lambda>_. False) ''A'' 1 0 =
     Some \<lparr>w_retval = 0, w_pos = 0,
           w_dev = \<lparr>data = [], quantum = 4, qset = 2, size_dev = 0\<rparr>,
           w_kmem = \<lambda>_. False\<rparr> \<and>
   (0::int) \<noteq> - ENOMEM"
  by (simp add: scull_write_def scull_write_pos_def scull_follow_def kzalloc_def
      to_int_def to_long_def ENOMEM_def)

text \<open>
  C4: \<^verbatim>\<open>scull_init\<close> registers 4 device numbers and allocates and initialises a table of
  4 devices whatever \<^verbatim>\<open>scull_num_devs\<close> is: loaded with \<^verbatim>\<open>scull_num_devs = 2\<close>, it still
  creates 4 devices.
\<close>

theorem scull_init_ignores_num_devs:
  "scull_init
     \<lparr>scull_major = 0, scull_minor = 0, scull_quantum = 4000, scull_qset = 1000,
      scull_num_devs = 2\<rparr>
     \<lparr>region_err = 0, dyn_major = 250, dyn_minor = 0, cdev_add_err = \<lambda>_. 0\<rparr> (\<lambda>_. True) =
   Some (0,
     \<lparr>params = \<lparr>scull_major = 250, scull_minor = 0, scull_quantum = 4000,
                 scull_qset = 1000, scull_num_devs = 2\<rparr>,
      scull_devices =
        Some (replicate 4 \<lparr>data = [], quantum = 4000, qset = 1000, size_dev = 0\<rparr>),
      region = Some (250, 0, 4), cdevs = [0, 1, 2, 3]\<rparr>,
     \<lambda>_. True)"
  by (simp add: scull_init_def upt_rec numeral_eq_Suc)

text \<open>
  C3 (as stated) fails on the code. With \<open>quantum = 4\<close>, \<open>qset = 2\<close>, on an empty device
  and with every allocation succeeding: the eight bytes \<open>ABCDEFGH\<close> are written at
  offset 0 (two calls, as one call transfers at most a quantum), then \<open>Z\<close> at offset
  10. The last write allocates the zero-filled quantum of slot 0 of segment 1, which
  holds the offsets 8 to 11, and sets the size to 11. A read of one byte at offset 8
  then returns 1 and not 0: it transfers a byte.
\<close>

theorem read_hole_counterexample:
  "map_option fst
     (run_ops \<lparr>data = [], quantum = 4, qset = 2, size_dev = 0\<rparr> (\<lambda>_. True)
        [Write True ''ABCDEFGH'' 8 0, Write True ''EFGH'' 4 4, Write True ''Z'' 1 10]) =
   Some \<lparr>data = [Some [Some ''ABCD'', Some ''EFGH''],
                  Some [Some [CHR 0x00, CHR 0x00, CHR ''Z'', CHR 0x00], None]],
         quantum = 4, qset = 2, size_dev = 11\<rparr> \<and>
   map_option r_retval
     (scull_read True
        \<lparr>data = [Some [Some ''ABCD'', Some ''EFGH''],
                 Some [Some [CHR 0x00, CHR 0x00, CHR ''Z'', CHR 0x00], None]],
         quantum = 4, qset = 2, size_dev = 11\<rparr> (\<lambda>_. True) 1 1 8) = Some 1 \<and>
   (1::int) \<noteq> 0"
  by code_simp

text \<open>
  C3, amended: with \<open>quantum = 4\<close> and \<open>qset = 2\<close>, after \<open>ABCDEFGH\<close> is written at
  offset 0 (the size is then 8; a read of \<open>[8, 9)\<close> at this point returns 0, with no byte
  transferred) and \<open>Z\<close> at offset 10 (the size is then 11), a read of the never-written
  range \<open>[8, 9)\<close> succeeds and transfers one byte, the zero byte of the zero-filled
  quantum that the write at offset 10 allocated; it is not a \<^verbatim>\<open>-EFAULT\<close> failure, and
  \<^verbatim>\<open>*f_pos\<close> advances to 9.
\<close>

theorem read_hole_reads_zero_byte:
  "map_option fst
     (run_ops \<lparr>data = [], quantum = 4, qset = 2, size_dev = 0\<rparr> (\<lambda>_. True)
        [Write True ''ABCDEFGH'' 8 0, Write True ''EFGH'' 4 4]) =
   Some \<lparr>data = [Some [Some ''ABCD'', Some ''EFGH'']], quantum = 4, qset = 2, size_dev = 8\<rparr> \<and>
   map_option (\<lambda>r. (r_retval r, r_buf r, r_pos r))
     (scull_read True
        \<lparr>data = [Some [Some ''ABCD'', Some ''EFGH'']], quantum = 4, qset = 2, size_dev = 8\<rparr>
        (\<lambda>_. True) 1 1 8) = Some (0, [], 8) \<and>
   map_option fst
     (run_ops \<lparr>data = [], quantum = 4, qset = 2, size_dev = 0\<rparr> (\<lambda>_. True)
        [Write True ''ABCDEFGH'' 8 0, Write True ''EFGH'' 4 4, Write True ''Z'' 1 10]) =
   Some \<lparr>data = [Some [Some ''ABCD'', Some ''EFGH''],
                  Some [Some [CHR 0x00, CHR 0x00, CHR ''Z'', CHR 0x00], None]],
         quantum = 4, qset = 2, size_dev = 11\<rparr> \<and>
   map_option (\<lambda>r. (r_retval r, r_buf r, r_pos r, r_dev r))
     (scull_read True
        \<lparr>data = [Some [Some ''ABCD'', Some ''EFGH''],
                 Some [Some [CHR 0x00, CHR 0x00, CHR ''Z'', CHR 0x00], None]],
         quantum = 4, qset = 2, size_dev = 11\<rparr> (\<lambda>_. True) 1 1 8) =
   Some (1, [CHR 0x00], 9,
         \<lparr>data = [Some [Some ''ABCD'', Some ''EFGH''],
                  Some [Some [CHR 0x00, CHR 0x00, CHR ''Z'', CHR 0x00], None]],
          quantum = 4, qset = 2, size_dev = 11\<rparr>) \<and>
   (1::int) \<noteq> - EFAULT"
  by code_simp

text \<open>
  C6: with module defaults that are a valid configuration, for every device in every
  reachable state \<^verbatim>\<open>scull_trim\<close> is defined, and after it the size is 0, the chain is empty
  (no segment and no quantum is reachable), \<^verbatim>\<open>quantum\<close> and \<^verbatim>\<open>qset\<close> are the module
  parameters, and a read at offset 0 of any length \<open>count\<close> (a \<^verbatim>\<open>size_t\<close>) that obtained the
  lock returns 0 and transfers no byte.
\<close>

theorem trim_resets_device:
  assumes "cfg_ok (scull_quantum p) (scull_qset p)" and "reachable p dev"
  shows "\<exists>dev'. scull_trim p dev = Some dev' \<and>
           size_dev dev' = 0 \<and> data dev' = [] \<and> (\<forall>i s. quantum_at dev' i s = None) \<and>
           quantum dev' = scull_quantum p \<and> qset dev' = scull_qset p \<and>
           (0 \<le> count \<and> count < 2 ^ 64 \<longrightarrow>
            (\<exists>r. scull_read True dev' m ubuf count 0 = Some r \<and>
                 r_retval r = 0 \<and> r_buf r = [] \<and> r_pos r = 0))"
proof -
  define d where
    "d = dev\<lparr>size_dev := 0, quantum := scull_quantum p, qset := scull_qset p, data := []\<rparr>"
  from reachable_wf[OF assms] have "wf_dev dev" by simp
  then have t: "scull_trim p dev = Some d" by (simp add: scull_trim_wf d_def)
  have qa: "quantum_at d i s = None" for i s
    by (simp add: d_def quantum_at_def node_at_def)
  have rd: "\<exists>r. scull_read True d m ubuf count 0 = Some r \<and>
         r_retval r = 0 \<and> r_buf r = [] \<and> r_pos r = 0"
    if c: "0 \<le> count" "count < 2 ^ 64"
  proof -
    have wf: "wf_dev d" using assms(1) by (simp add: wf_dev_def d_def)
    have pos: "pos_ok d 0" by (simp add: pos_ok_def)
    from scull_read_spec[OF wf pos c(1), of m ubuf] c(2) qa show ?thesis
      by auto
  qed
  show ?thesis using t qa rd by (auto simp: d_def)
qed

theorem trim_resets_device_witness:
  "cfg_ok 4 2 \<and>
   reachable \<lparr>scull_major = 0, scull_minor = 0, scull_quantum = 4, scull_qset = 2,
              scull_num_devs = 4\<rparr>
     \<lparr>data = [Some [Some ''ABCD'', None]], quantum = 4, qset = 2, size_dev = 4\<rparr> \<and>
   (\<exists>dev'. scull_trim \<lparr>scull_major = 0, scull_minor = 0, scull_quantum = 4, scull_qset = 2,
                         scull_num_devs = 4\<rparr>
              \<lparr>data = [Some [Some ''ABCD'', None]], quantum = 4, qset = 2, size_dev = 4\<rparr> =
              Some dev' \<and>
            dev' = \<lparr>data = [], quantum = 4, qset = 2, size_dev = 0\<rparr> \<and>
            (\<exists>r. scull_read True dev' (\<lambda>_. True) 100 100 0 = Some r \<and>
                 r_retval r = 0 \<and> r_buf r = [] \<and> r_pos r = 0))"
proof -
  let ?p = "\<lparr>scull_major = 0, scull_minor = 0, scull_quantum = 4, scull_qset = 2,
             scull_num_devs = 4\<rparr>"
  let ?e = "\<lparr>data = [], quantum = 4, qset = 2, size_dev = 0\<rparr>"
  let ?d = "\<lparr>data = [Some [Some ''ABCD'', None]], quantum = 4, qset = 2, size_dev = 4\<rparr>"
  let ?w = "\<lparr>w_retval = 4, w_pos = 4, w_dev = ?d, w_kmem = \<lambda>_. True\<rparr>"
  have cfg: "cfg_ok (scull_quantum ?p) (scull_qset ?p)" by (simp add: cfg_ok_def)
  have "reachable ?p \<lparr>data = [], quantum = scull_quantum ?p, qset = scull_qset ?p,
                       size_dev = 0\<rparr>"
    by (rule reach_init)
  then have r0: "reachable ?p ?e" by simp
  have w: "scull_write True ?e (\<lambda>_. True) ''ABCD'' 4 0 = Some ?w"
    by (simp add: scull_write_def scull_write_pos_def scull_follow_def kzalloc_def
        write_slots_def write_quantum_def copy_from_user_def to_int_def to_long_def
        to_ulong_def signed_divide_int_def signed_modulo_int_def Let_def numeral_2_eq_2)
  have "reachable ?p (w_dev ?w)" using r0 w by (rule reach_write)
  then have r: "reachable ?p ?d" by simp
  from trim_resets_device[OF cfg r, of 100 "\<lambda>_. True" 100]
  obtain dev' where t: "scull_trim ?p ?d = Some dev'" "size_dev dev' = 0" "data dev' = []"
    "quantum dev' = 4" "qset dev' = 2"
    and rd: "\<exists>r. scull_read True dev' (\<lambda>_. True) 100 100 0 = Some r \<and>
                 r_retval r = 0 \<and> r_buf r = [] \<and> r_pos r = 0"
    by auto
  from t have "dev' = ?e" by (cases dev') simp
  with t rd cfg r show ?thesis by (simp add: cfg_ok_def)
qed

text \<open>
  C7: on a well-formed device, for a valid offset and a count that is a \<^verbatim>\<open>size_t\<close>
  (the file layer keeps \<open>f_pos + count\<close> below \<open>2^64\<close>), every call of \<^verbatim>\<open>scull_read\<close>
  and of \<^verbatim>\<open>scull_write\<close> returns, and its return value (the number of bytes
  transferred, when it is not an error number) is at most \<open>quantum - intra_offset\<close>
  and at most the count requested; for a read it is also at most \<open>size - f_pos\<close>
  (0 when the offset is beyond the size), a read that succeeds stores as many
  bytes as it returns, and a write changes no quantum but the one that holds \<open>f_pos\<close>.
\<close>

theorem transfer_within_quantum:
  assumes "wf_dev dev" and "pos_ok dev f_pos" and "0 \<le> count" and "f_pos + count < 2 ^ 64"
  shows "(\<exists>r. scull_read locked dev m ubuf count f_pos = Some r \<and>
            r_retval r \<le> quantum dev - spec_intra_offset (quantum dev) (qset dev) f_pos \<and>
            r_retval r \<le> max 0 (size_dev dev - f_pos) \<and>
            r_retval r \<le> count \<and>
            (0 \<le> r_retval r \<longrightarrow> int (length (r_buf r)) = r_retval r)) \<and>
         (\<exists>w. scull_write locked dev m buf count f_pos = Some w \<and>
            w_retval w \<le> quantum dev - spec_intra_offset (quantum dev) (qset dev) f_pos \<and>
            w_retval w \<le> count \<and>
            (\<forall>i s. (i, s) \<noteq> (nat (spec_segment_index (quantum dev) (qset dev) f_pos),
                               nat (spec_slot_index (quantum dev) (qset dev) f_pos)) \<longrightarrow>
                   quantum_at (w_dev w) i s = quantum_at dev i s))"
proof -
  define Qp where "Qp = spec_intra_offset (quantum dev) (qset dev) f_pos"
  define I where "I = nat (spec_segment_index (quantum dev) (qset dev) f_pos)"
  define Sn where "Sn = nat (spec_slot_index (quantum dev) (qset dev) f_pos)"
  have cfg: "cfg_ok (quantum dev) (qset dev)" using assms(1) by (simp add: wf_dev_def)
  have p0: "0 \<le> f_pos" using assms(2) by (simp add: pos_ok_def)
  note b = coords_bounds[OF cfg p0]
  have qp: "0 \<le> Qp" "Qp < quantum dev"
    using b(4,5) by (simp_all add: Qp_def spec_intra_offset_def)
  have rd: "\<exists>r. scull_read locked dev m ubuf count f_pos = Some r \<and>
            r_retval r \<le> quantum dev - Qp \<and>
            r_retval r \<le> max 0 (size_dev dev - f_pos) \<and>
            r_retval r \<le> count \<and>
            (0 \<le> r_retval r \<longrightarrow> int (length (r_buf r)) = r_retval r)"
  proof (cases locked)
    case False
    then show ?thesis using qp assms(3)
      by (simp add: scull_read_unlocked ERESTARTSYS_def)
  next
    case True
    from scull_read_spec[OF assms, of m ubuf] obtain r where
      r: "scull_read True dev m ubuf count f_pos = Some r"
      and c: "if size_dev dev < f_pos \<or>
               quantum_at dev (nat (f_pos div (quantum dev * qset dev)))
                 (nat (f_pos mod (quantum dev * qset dev) div quantum dev)) = None
            then r_retval r = 0 \<and> r_buf r = [] \<and> r_pos r = f_pos
            else
              let n = min count (min (size_dev dev - f_pos) (quantum dev - Qp))
              in if nat n \<le> ubuf then
                   r_retval r = n \<and> r_pos r = f_pos + n \<and>
                   r_buf r = take (nat n)
                     (drop (nat Qp)
                        (the (quantum_at dev (nat (f_pos div (quantum dev * qset dev)))
                                (nat (f_pos mod (quantum dev * qset dev) div quantum dev)))))
                 else r_retval r = - EFAULT \<and> r_pos r = f_pos"
      unfolding Qp_def spec_intra_offset_def by blast
    show ?thesis
    proof (cases "size_dev dev < f_pos \<or>
               quantum_at dev (nat (f_pos div (quantum dev * qset dev)))
                 (nat (f_pos mod (quantum dev * qset dev) div quantum dev)) = None")
      case True
      with c have "r_retval r = 0" "r_buf r = []" by auto
      then show ?thesis using r \<open>locked\<close> qp assms(3) by simp
    next
      case False
      then obtain q where q: "quantum_at dev (nat (f_pos div (quantum dev * qset dev)))
                 (nat (f_pos mod (quantum dev * qset dev) div quantum dev)) = Some q"
        by auto
      have lq: "int (length q) = quantum dev" using wf_dev_quantum_at[OF assms(1) q] .
      define n where "n = min count (min (size_dev dev - f_pos) (quantum dev - Qp))"
      have n: "0 \<le> n" "n \<le> quantum dev - Qp" "n \<le> count" "n \<le> size_dev dev - f_pos"
        using False assms(3) qp by (auto simp: n_def)
      show ?thesis
      proof (cases "nat n \<le> ubuf")
        case True
        with c False q have "r_retval r = n" "r_buf r = take (nat n) (drop (nat Qp) q)"
          by (auto simp: n_def Let_def)
        moreover have "int (length (take (nat n) (drop (nat Qp) q))) = n"
          using lq n qp by simp
        ultimately show ?thesis using r \<open>locked\<close> n by simp
      next
        case nle: False
        with c False have "r_retval r = - EFAULT" by (auto simp: n_def Let_def)
        then show ?thesis using r \<open>locked\<close> qp assms(3) False by (simp add: EFAULT_def)
      qed
    qed
  qed
  have wr: "\<exists>w. scull_write locked dev m buf count f_pos = Some w \<and>
            w_retval w \<le> quantum dev - Qp \<and> w_retval w \<le> count \<and>
            (\<forall>i s. (i, s) \<noteq> (I, Sn) \<longrightarrow> quantum_at (w_dev w) i s = quantum_at dev i s)"
  proof (cases locked)
    case False
    then show ?thesis using qp assms(3)
      by (simp add: scull_write_unlocked ERESTARTSYS_def)
  next
    case True
    from scull_write_spec[OF assms(1,2,3), of m buf] obtain w where
      w: "scull_write True dev m buf count f_pos = Some w"
      and c: "w_retval w = min count (quantum dev - Qp) \<or> w_retval w \<le> 0"
      and fr: "\<forall>i s. (i, s) \<noteq> (I, Sn) \<longrightarrow> quantum_at (w_dev w) i s = quantum_at dev i s"
      unfolding Qp_def I_def Sn_def by blast
    from c have "w_retval w \<le> quantum dev - Qp \<and> w_retval w \<le> count"
      using qp assms(3) by auto
    with w fr show ?thesis unfolding \<open>locked\<close>[THEN eqTrueI] by (intro exI[of _ w]) simp
  qed
  show ?thesis using rd wr unfolding Qp_def I_def Sn_def by blast
qed

theorem transfer_within_quantum_witness:
  "wf_dev \<lparr>data = [Some [Some ''ABCD'', Some ''EFGH'']], quantum = 4, qset = 2, size_dev = 8\<rparr> \<and>
   pos_ok \<lparr>data = [Some [Some ''ABCD'', Some ''EFGH'']], quantum = 4, qset = 2, size_dev = 8\<rparr> 1 \<and>
   (0::int) \<le> 8 \<and> (1::int) + 8 < 2 ^ 64 \<and>
   (\<exists>r. scull_read True
          \<lparr>data = [Some [Some ''ABCD'', Some ''EFGH'']], quantum = 4, qset = 2, size_dev = 8\<rparr>
          (\<lambda>_. True) 8 8 1 = Some r \<and>
        r_retval r \<le> 4 - spec_intra_offset 4 2 1 \<and> r_retval r \<le> max 0 (8 - 1) \<and>
        r_retval r \<le> 8 \<and> (0 \<le> r_retval r \<longrightarrow> int (length (r_buf r)) = r_retval r)) \<and>
   (\<exists>w. scull_write True
          \<lparr>data = [Some [Some ''ABCD'', Some ''EFGH'']], quantum = 4, qset = 2, size_dev = 8\<rparr>
          (\<lambda>_. True) ''12345678'' 8 1 = Some w \<and>
        w_retval w \<le> 4 - spec_intra_offset 4 2 1 \<and> w_retval w \<le> 8)"
proof -
  let ?d = "\<lparr>data = [Some [Some ''ABCD'', Some ''EFGH'']], quantum = 4, qset = 2, size_dev = 8\<rparr>"
  have wf: "wf_dev ?d" by (simp add: wf_dev_def cfg_ok_def wf_node_def wf_slot_def)
  have pos: "pos_ok ?d 1" by (simp add: pos_ok_def)
  have c: "(0::int) \<le> 8" "(1::int) + 8 < 2 ^ 64" by simp_all
  from transfer_within_quantum[OF wf pos c, of True "\<lambda>_. True" 8 "''12345678''"]
  show ?thesis using wf pos by auto
qed

text \<open>
  C10. Every read that returns leaves \<^verbatim>\<open>size\<close>, \<^verbatim>\<open>quantum\<close>, \<^verbatim>\<open>qset\<close> and every
  quantum of the device as they were, and can change the chain only by appending
  empty nodes (whose \<^verbatim>\<open>data\<close> is \<^verbatim>\<open>NULL\<close>). It does change it: on a well-formed device,
  a read that obtained the lock at a valid offset \<open>f_pos \<le> size\<close> whose segment index is
  not below the length of the chain (on an empty chain: every such read) returns 0
  with no byte transferred, and, when \<^verbatim>\<open>kzalloc\<close> succeeds, leaves a chain extended by
  empty nodes up to and including that index.
\<close>

theorem read_appends_empty_segments:
  "(scull_read locked dev m ubuf count f_pos = Some r \<longrightarrow>
      size_dev (r_dev r) = size_dev dev \<and> quantum (r_dev r) = quantum dev \<and>
      qset (r_dev r) = qset dev \<and>
      (\<exists>k. data (r_dev r) = data dev @ replicate k None) \<and>
      (\<forall>i s. quantum_at (r_dev r) i s = quantum_at dev i s)) \<and>
   (wf_dev dev \<and> pos_ok dev f_pos \<and> f_pos \<le> size_dev dev \<and> 0 \<le> count \<and>
    f_pos + count < 2 ^ 64 \<and>
    length (data dev) \<le> nat (spec_segment_index (quantum dev) (qset dev) f_pos) \<longrightarrow>
      (\<exists>r'. scull_read True dev m ubuf count f_pos = Some r' \<and>
            r_retval r' = 0 \<and> r_buf r' = [] \<and> r_pos r' = f_pos) \<and>
      scull_read True dev (\<lambda>_. True) ubuf count f_pos =
        Some \<lparr>r_retval = 0, r_buf = [], r_pos = f_pos,
              r_dev = dev\<lparr>data := data dev @
                replicate (Suc (nat (spec_segment_index (quantum dev) (qset dev) f_pos))
                             - length (data dev)) None\<rparr>,
              r_kmem = \<lambda>_. True\<rparr> \<and>
      length (data dev) <
        length (data dev @
                replicate (Suc (nat (spec_segment_index (quantum dev) (qset dev) f_pos))
                             - length (data dev)) None))"
proof (intro conjI impI)
  assume "scull_read locked dev m ubuf count f_pos = Some r"
  from scull_read_frame[OF this] obtain k where
    k: "r_dev r = dev\<lparr>data := data dev @ replicate k None\<rparr>" by blast
  then show "size_dev (r_dev r) = size_dev dev" "quantum (r_dev r) = quantum dev"
    "qset (r_dev r) = qset dev" "\<exists>k. data (r_dev r) = data dev @ replicate k None"
    "\<forall>i s. quantum_at (r_dev r) i s = quantum_at dev i s"
    by simp_all
next
  assume a: "wf_dev dev \<and> pos_ok dev f_pos \<and> f_pos \<le> size_dev dev \<and> 0 \<le> count \<and>
    f_pos + count < 2 ^ 64 \<and>
    length (data dev) \<le> nat (spec_segment_index (quantum dev) (qset dev) f_pos)"
  then have qa: "quantum_at dev (nat (f_pos div (quantum dev * qset dev)))
                 (nat (f_pos mod (quantum dev * qset dev) div quantum dev)) = None"
    by (simp add: quantum_at_def node_at_def spec_segment_index_def)
  from a scull_read_spec[of dev f_pos count m ubuf] qa
  show "\<exists>r'. scull_read True dev m ubuf count f_pos = Some r' \<and>
            r_retval r' = 0 \<and> r_buf r' = [] \<and> r_pos r' = f_pos"
    by auto
  from a show "scull_read True dev (\<lambda>_. True) ubuf count f_pos =
        Some \<lparr>r_retval = 0, r_buf = [], r_pos = f_pos,
              r_dev = dev\<lparr>data := data dev @
                replicate (Suc (nat (spec_segment_index (quantum dev) (qset dev) f_pos))
                             - length (data dev)) None\<rparr>,
              r_kmem = \<lambda>_. True\<rparr>"
    by (intro scull_read_beyond_chain) auto
  from a show "length (data dev) <
        length (data dev @
                replicate (Suc (nat (spec_segment_index (quantum dev) (qset dev) f_pos))
                             - length (data dev)) None)"
    by simp
qed

theorem read_appends_empty_segments_witness:
  "wf_dev \<lparr>data = [], quantum = 4, qset = 2, size_dev = 0\<rparr> \<and>
   pos_ok \<lparr>data = [], quantum = 4, qset = 2, size_dev = 0\<rparr> 0 \<and>
   scull_read True \<lparr>data = [], quantum = 4, qset = 2, size_dev = 0\<rparr> (\<lambda>_. True) 1 1 0 =
     Some \<lparr>r_retval = 0, r_buf = [], r_pos = 0,
           r_dev = \<lparr>data = [None], quantum = 4, qset = 2, size_dev = 0\<rparr>,
           r_kmem = \<lambda>_. True\<rparr> \<and>
   size_dev (r_dev \<lparr>r_retval = 0, r_buf = [], r_pos = 0,
           r_dev = \<lparr>data = [None], quantum = 4, qset = 2, size_dev = 0\<rparr>,
           r_kmem = \<lambda>_. True\<rparr>) = 0 \<and>
   (\<exists>k. [None] = [] @ replicate k (None :: scull_qset))"
proof -
  let ?d = "\<lparr>data = [], quantum = 4, qset = 2, size_dev = 0\<rparr>"
  let ?r = "\<lparr>r_retval = 0, r_buf = [], r_pos = 0,
           r_dev = \<lparr>data = [None], quantum = 4, qset = 2, size_dev = 0\<rparr>,
           r_kmem = \<lambda>_. True\<rparr>"
  have wf: "wf_dev ?d" by (simp add: wf_dev_def cfg_ok_def)
  have pos: "pos_ok ?d 0" by (simp add: pos_ok_def)
  note t = read_appends_empty_segments[of True ?d "\<lambda>_. True" 1 1 0 ?r]
  have rd: "scull_read True ?d (\<lambda>_. True) 1 1 0 = Some ?r"
    using t wf pos by (simp add: spec_segment_index_def)
  with t have "size_dev (r_dev ?r) = 0" "\<exists>k. data (r_dev ?r) = data ?d @ replicate k None"
    by auto
  with wf pos rd show ?thesis by simp
qed

text \<open>
  C8. From the empty state of a well-formed device, after a sequence of writes at valid
  offsets that all succeed, the size is the maximum over the sequence of
  \<open>offset + bytes written\<close>, the return value of each write (0 for the empty
  sequence). A write succeeds when every \<^verbatim>\<open>kzalloc\<close> gives memory and \<open>count\<close> bytes of the
  source are readable (first part; the writes then all return); the same holds for
  every allocator and every source when each write of the sequence returned a positive
  count (second part). Across all operations the size never decreases except by trim:
  a read that returns leaves it unchanged, a write that returns never lowers it, a
  write that returns an error number (a failed copy among them) leaves it unchanged,
  \<^verbatim>\<open>scull_open\<close> leaves the device as it was or trims it, \<^verbatim>\<open>scull_release\<close> leaves it as
  it was, and \<^verbatim>\<open>scull_trim\<close> sets the size to 0.
\<close>

theorem size_is_max_written:
  "(wf_dev dev \<and> data dev = [] \<and> size_dev dev = 0 \<and>
    (\<forall>(buf, count, f_pos) \<in> set ws.
        pos_ok dev f_pos \<and> 0 \<le> count \<and> count \<le> int (length buf)) \<longrightarrow>
    (\<exists>rs dev'. write_seq dev (\<lambda>_. True) ws = Some (rs, dev', \<lambda>_. True) \<and>
       length rs = length ws \<and> (\<forall>r \<in> set rs. 0 \<le> r) \<and>
       size_dev dev' =
         Max (insert 0 (set (map2 (\<lambda>(buf, count, f_pos) r. f_pos + r) ws rs))))) \<and>
   (wf_dev dev \<and> data dev = [] \<and> size_dev dev = 0 \<and>
    (\<forall>(buf, count, f_pos) \<in> set ws. pos_ok dev f_pos \<and> 0 \<le> count) \<and>
    write_seq dev m ws = Some (rs, dev', m') \<and> (\<forall>r \<in> set rs. 0 < r) \<longrightarrow>
    size_dev dev' = Max (insert 0 (set (map2 (\<lambda>(buf, count, f_pos) r. f_pos + r) ws rs)))) \<and>
   (scull_read locked dev m ubuf count f_pos = Some r \<longrightarrow>
    size_dev (r_dev r) = size_dev dev) \<and>
   (scull_write locked dev m buf count f_pos = Some w \<longrightarrow>
    size_dev dev \<le> size_dev (w_dev w)) \<and>
   (wf_dev dev \<and> pos_ok dev f_pos \<and> 0 \<le> count \<and>
    scull_write locked dev m buf count f_pos = Some w \<and> w_retval w < 0 \<longrightarrow>
    size_dev (w_dev w) = size_dev dev) \<and>
   (scull_open p wronly locked dev = Some (ret, dev'') \<longrightarrow>
    dev'' = dev \<or> scull_trim p dev = Some dev'') \<and>
   snd (scull_release dev) = dev \<and>
   (scull_trim p dev = Some dev'' \<longrightarrow> size_dev dev'' = 0)"
proof (intro conjI impI)
  assume a: "wf_dev dev \<and> data dev = [] \<and> size_dev dev = 0 \<and>
    (\<forall>(buf, count, f_pos) \<in> set ws.
        pos_ok dev f_pos \<and> 0 \<le> count \<and> count \<le> int (length buf))"
  then have "wf_dev dev" and s0: "size_dev dev = 0"
    and ok: "\<forall>(buf, count, f_pos) \<in> set ws.
        pos_ok dev f_pos \<and> 0 \<le> count \<and> count \<le> int (length buf)"
    by blast+
  from write_seq_allok[OF this(1) ok] show
    "\<exists>rs dev'. write_seq dev (\<lambda>_. True) ws = Some (rs, dev', \<lambda>_. True) \<and>
       length rs = length ws \<and> (\<forall>r \<in> set rs. 0 \<le> r) \<and>
       size_dev dev' =
         Max (insert 0 (set (map2 (\<lambda>(buf, count, f_pos) r. f_pos + r) ws rs)))"
    unfolding s0 .
next
  assume a: "wf_dev dev \<and> data dev = [] \<and> size_dev dev = 0 \<and>
    (\<forall>(buf, count, f_pos) \<in> set ws. pos_ok dev f_pos \<and> 0 \<le> count) \<and>
    write_seq dev m ws = Some (rs, dev', m') \<and> (\<forall>r \<in> set rs. 0 < r)"
  then have "wf_dev dev" and s0: "size_dev dev = 0"
    and ok: "\<forall>(buf, count, f_pos) \<in> set ws. pos_ok dev f_pos \<and> 0 \<le> count"
    and run: "write_seq dev m ws = Some (rs, dev', m')" and pos: "\<forall>r \<in> set rs. 0 < r"
    by blast+
  from write_seq_positive[OF this(1) ok run pos] show
    "size_dev dev' = Max (insert 0 (set (map2 (\<lambda>(buf, count, f_pos) r. f_pos + r) ws rs)))"
    unfolding s0 by blast
next
  assume "scull_read locked dev m ubuf count f_pos = Some r"
  from scull_read_frame[OF this] show "size_dev (r_dev r) = size_dev dev" by auto
next
  assume "scull_write locked dev m buf count f_pos = Some w"
  then show "size_dev dev \<le> size_dev (w_dev w)" by (rule scull_write_size_mono)
next
  assume a: "wf_dev dev \<and> pos_ok dev f_pos \<and> 0 \<le> count \<and>
    scull_write locked dev m buf count f_pos = Some w \<and> w_retval w < 0"
  show "size_dev (w_dev w) = size_dev dev"
  proof (cases locked)
    case False
    with a show ?thesis by (auto simp: scull_write_unlocked)
  next
    case True
    define n where
      "n = min count (quantum dev - spec_intra_offset (quantum dev) (qset dev) f_pos)"
    have cfg: "cfg_ok (quantum dev) (qset dev)" using a by (simp add: wf_dev_def)
    have p0: "0 \<le> f_pos" using a by (simp add: pos_ok_def)
    have "spec_intra_offset (quantum dev) (qset dev) f_pos < quantum dev"
      using coords_bounds(5)[OF cfg p0] by (simp add: spec_intra_offset_def)
    then have n0: "0 \<le> n" using a by (simp add: n_def)
    from a have h: "wf_dev dev" "pos_ok dev f_pos" "0 \<le> count" by blast+
    from scull_write_result[OF h, of m buf, folded n_def] a True
    have "(w_retval w = n \<and> size_dev (w_dev w) = max (size_dev dev) (f_pos + n)) \<or>
          size_dev (w_dev w) = size_dev dev"
      by auto
    with a n0 show ?thesis by auto
  qed
next
  assume "scull_open p wronly locked dev = Some (ret, dev'')"
  then show "dev'' = dev \<or> scull_trim p dev = Some dev''"
    by (auto simp: scull_open_def split: if_splits option.splits)
next
  show "snd (scull_release dev) = dev" by (simp add: scull_release_def)
next
  assume "scull_trim p dev = Some dev''"
  then show "size_dev dev'' = 0" by (auto simp: scull_trim_def split: if_splits)
qed


theorem size_is_max_written_witness:
  "wf_dev \<lparr>data = [], quantum = 4, qset = 2, size_dev = 0\<rparr> \<and>
   pos_ok \<lparr>data = [], quantum = 4, qset = 2, size_dev = 0\<rparr> 0 \<and>
   pos_ok \<lparr>data = [], quantum = 4, qset = 2, size_dev = 0\<rparr> 10 \<and>
   (\<exists>rs dev'.
      write_seq \<lparr>data = [], quantum = 4, qset = 2, size_dev = 0\<rparr> (\<lambda>_. True)
        [(''ABCDEFGH'', 8, 0), (''Z'', 1, 10)] = Some (rs, dev', \<lambda>_. True) \<and>
      rs = [4, 1] \<and> size_dev dev' = 11 \<and>
      size_dev dev' =
        Max (insert 0 (set (map2 (\<lambda>(buf, count, f_pos) r. f_pos + r)
               [(''ABCDEFGH'', 8 :: int, 0 :: int), (''Z'', 1, 10)] rs)))) \<and>
   scull_write True \<lparr>data = [], quantum = 4, qset = 2, size_dev = 0\<rparr> (\<lambda>_. True) [] 1 0 =
     Some \<lparr>w_retval = - EFAULT, w_pos = 0,
           w_dev = \<lparr>data = [Some [Some [CHR 0x00, CHR 0x00, CHR 0x00, CHR 0x00], None]],
                    quantum = 4, qset = 2, size_dev = 0\<rparr>,
           w_kmem = \<lambda>_. True\<rparr> \<and>
   size_dev (w_dev \<lparr>w_retval = - EFAULT, w_pos = 0,
           w_dev = \<lparr>data = [Some [Some [CHR 0x00, CHR 0x00, CHR 0x00, CHR 0x00], None]],
                    quantum = 4, qset = 2, size_dev = 0\<rparr>,
           w_kmem = \<lambda>_. True\<rparr>) =
     size_dev \<lparr>data = [], quantum = 4, qset = 2, size_dev = 0\<rparr>"
proof -
  let ?d = "\<lparr>data = [], quantum = 4, qset = 2, size_dev = 0\<rparr>"
  let ?ws = "[(''ABCDEFGH'', 8 :: int, 0 :: int), (''Z'', 1, 10)]"
  let ?w = "\<lparr>w_retval = - EFAULT, w_pos = 0,
           w_dev = \<lparr>data = [Some [Some [CHR 0x00, CHR 0x00, CHR 0x00, CHR 0x00], None]],
                    quantum = 4, qset = 2, size_dev = 0\<rparr>,
           w_kmem = \<lambda>_. True\<rparr>"
  have wf: "wf_dev ?d" by (simp add: wf_dev_def cfg_ok_def)
  have pos: "pos_ok ?d 0" "pos_ok ?d 10" by (simp_all add: pos_ok_def)
  have ev: "map_option (\<lambda>(rs, d, m). (rs, size_dev d)) (write_seq ?d (\<lambda>_. True) ?ws) =
      Some ([4, 1], 11)"
    by code_simp
  have h: "wf_dev ?d \<and> data ?d = [] \<and> size_dev ?d = 0 \<and>
    (\<forall>(buf, count, f_pos) \<in> set ?ws.
        pos_ok ?d f_pos \<and> 0 \<le> count \<and> count \<le> int (length buf))"
    using wf pos by simp
  from size_is_max_written[of ?d ?ws, THEN conjunct1, THEN mp, OF h]
  obtain rs dev' where run: "write_seq ?d (\<lambda>_. True) ?ws = Some (rs, dev', \<lambda>_. True)"
    and mx: "size_dev dev' =
        Max (insert 0 (set (map2 (\<lambda>(buf, count, f_pos) r. f_pos + r) ?ws rs)))"
    by blast
  from ev run have rs: "rs = [4, 1]" "size_dev dev' = 11" by simp_all
  have h2: "wf_dev ?d \<and> data ?d = [] \<and> size_dev ?d = 0 \<and>
    (\<forall>(buf, count, f_pos) \<in> set ?ws. pos_ok ?d f_pos \<and> 0 \<le> count) \<and>
    write_seq ?d (\<lambda>_. True) ?ws = Some (rs, dev', \<lambda>_. True) \<and> (\<forall>r \<in> set rs. 0 < r)"
    using wf pos run rs by simp
  from size_is_max_written[where dev = ?d and ws = ?ws and m = "\<lambda>_. True" and rs = rs
      and dev' = dev' and m' = "\<lambda>_. True", THEN conjunct2, THEN conjunct1, THEN mp, OF h2]
  have mx2: "size_dev dev' =
        Max (insert 0 (set (map2 (\<lambda>(buf, count, f_pos) r. f_pos + r) ?ws rs)))" .
  have w: "scull_write True ?d (\<lambda>_. True) [] 1 0 = Some ?w"
    by (simp add: scull_write_def scull_write_pos_def scull_follow_def kzalloc_def
        write_slots_def write_quantum_def copy_from_user_def to_int_def to_long_def
        to_ulong_def signed_divide_int_def signed_modulo_int_def Let_def numeral_2_eq_2
        numeral_eq_Suc)
  have h3: "wf_dev ?d \<and> pos_ok ?d 0 \<and> (0::int) \<le> 1 \<and>
    scull_write True ?d (\<lambda>_. True) [] 1 0 = Some ?w \<and> w_retval ?w < 0"
    using wf pos w by (simp add: EFAULT_def)
  from size_is_max_written[where dev = ?d and m = "\<lambda>_. True" and locked = True
      and buf = "[]" and count = 1 and f_pos = 0 and w = ?w,
      THEN conjunct2, THEN conjunct2, THEN conjunct2, THEN conjunct2, THEN conjunct1,
      THEN mp, OF h3]
  have sz: "size_dev (w_dev ?w) = size_dev ?d" .
  from run mx2 rs wf pos w sz show ?thesis by blast
qed

text \<open>
  C1 (as stated) fails on the code, in two ways. With \<open>quantum = 4\<close> and \<open>qset = 2\<close>, on
  an empty device with every allocation succeeding, \<^verbatim>\<open>write(dev, 0, "ABCDEFGH")\<close>
  transfers 4 bytes, and the following \<^verbatim>\<open>read(dev, 0, 8)\<close> returns the 4 bytes \<open>ABCD\<close>,
  not the 8 bytes written from. And with \<open>quantum = 1\<close> and \<open>qset = 1\<close>, after \<open>A\<close> is
  written at offset 0, a write of \<open>B\<close> at offset \<open>2^32\<close>, which does not overlap
  \<open>[0, 1)\<close>, lands in segment 0 (its segment index \<open>2^32\<close> is truncated to the
  \<^verbatim>\<open>int\<close> 0), and \<^verbatim>\<open>read(dev, 0, 1)\<close> returns \<open>B\<close>.
\<close>

theorem write_read_counterexample:
  "map_option (\<lambda>w. (w_retval w, w_dev w))
     (scull_write True \<lparr>data = [], quantum = 4, qset = 2, size_dev = 0\<rparr> (\<lambda>_. True)
        ''ABCDEFGH'' 8 0) =
   Some (4, \<lparr>data = [Some [Some ''ABCD'', None]], quantum = 4, qset = 2, size_dev = 4\<rparr>) \<and>
   map_option (\<lambda>r. (r_retval r, r_buf r))
     (scull_read True
        \<lparr>data = [Some [Some ''ABCD'', None]], quantum = 4, qset = 2, size_dev = 4\<rparr>
        (\<lambda>_. True) 8 8 0) = Some (4, ''ABCD'') \<and>
   ''ABCD'' \<noteq> ''ABCDEFGH'' \<and>
   map_option fst
     (run_ops \<lparr>data = [], quantum = 1, qset = 1, size_dev = 0\<rparr> (\<lambda>_. True)
        [Write True ''A'' 1 0, Write True ''B'' 1 4294967296]) =
   Some \<lparr>data = [Some [Some ''B'']], quantum = 1, qset = 1, size_dev = 4294967297\<rparr> \<and>
   \<not> write_overlaps (Write True ''B'' 1 4294967296) 0 (0 + 1) \<and>
   map_option (\<lambda>r. (r_retval r, r_buf r))
     (scull_read True
        \<lparr>data = [Some [Some ''B'']], quantum = 1, qset = 1, size_dev = 4294967297\<rparr>
        (\<lambda>_. True) 1 1 0) = Some (1, ''B'') \<and>
   ''B'' \<noteq> ''A''"
  by code_simp

text \<open>
  C1, amended. On a well-formed device and at a valid offset \<open>f_pos\<close>, let a call
  \<^verbatim>\<open>write(dev, f_pos, b)\<close> that obtained the lock return \<open>n > 0\<close>. Then
  \<open>n = min (len b) (quantum - intra_offset)\<close>; and after any calls of read and write in
  between, the writes at valid offsets (their segment index fits an \<^verbatim>\<open>int\<close>) and none of
  them a write whose range \<open>[f_pos', f_pos' + count')\<close> meets \<open>[f_pos, f_pos + len b)\<close>,
  a call \<^verbatim>\<open>read(dev, f_pos, len b)\<close> that obtained the lock, with a writable user buffer,
  returns \<open>n\<close> and exactly the first \<open>n\<close> bytes of \<open>b\<close>: all of \<open>b\<close> when \<open>b\<close> ends within
  the quantum that holds \<open>f_pos\<close>.
\<close>

theorem write_then_read:
  assumes "wf_dev dev" and "pos_ok dev f_pos" and "f_pos + int (length b) < 2 ^ 64"
    and "scull_write True dev m b (int (length b)) f_pos = Some w" and "0 < w_retval w"
    and "run_ops (w_dev w) (w_kmem w) ops = Some (dev', m')"
    and "\<forall>x \<in> set ops. op_ok dev x \<and> \<not> write_overlaps x f_pos (f_pos + int (length b))"
    and "length b \<le> ubuf"
  shows "\<exists>r. scull_read True dev' m' ubuf (int (length b)) f_pos = Some r \<and>
           r_retval r = w_retval w \<and> r_buf r = take (nat (w_retval w)) b \<and>
           r_pos r = f_pos + w_retval w \<and>
           w_retval w =
             min (int (length b))
                 (quantum dev - spec_intra_offset (quantum dev) (qset dev) f_pos) \<and>
           (int (length b) \<le> quantum dev - spec_intra_offset (quantum dev) (qset dev) f_pos
              \<longrightarrow> r_buf r = b)"
proof -
  define bs where "bs = take (nat (w_retval w)) b"
  have cnt: "0 \<le> int (length b)" by simp
  note s = scull_write_success[OF assms(1,2) cnt assms(4,5)]
  have lbs: "int (length bs) = w_retval w" using s(2) assms(5) by (simp add: bs_def)
  have p0: "0 \<le> f_pos" using assms(2) by (simp add: pos_ok_def)
  have len: "int (length bs) \<le> int (length b)" by (simp add: bs_def)
  have ok': "\<forall>x \<in> set ops. op_ok (w_dev w) x \<and>
               \<not> write_overlaps x f_pos (f_pos + int (length b))"
  proof
    fix y assume "y \<in> set ops"
    with assms(7) have "op_ok dev y" "\<not> write_overlaps y f_pos (f_pos + int (length b))"
      by auto
    moreover have "op_ok (w_dev w) y = op_ok dev y"
      using s(5,6) by (cases y) (simp_all add: pos_ok_def)
    ultimately show "op_ok (w_dev w) y \<and>
        \<not> write_overlaps y f_pos (f_pos + int (length b))" by simp
  qed
  from stores_run_ops[OF assms(6) s(4) s(3)[folded bs_def] p0 len ok']
  have st: "stores dev' f_pos bs" and wf': "wf_dev dev'"
    and c: "quantum dev' = quantum dev" "qset dev' = qset dev"
    using s(5,6) by simp_all
  have pos': "pos_ok dev' f_pos" using assms(2) c by (simp add: pos_ok_def)
  have k: "int (length bs) =
      min (int (length b)) (quantum dev' - spec_intra_offset (quantum dev') (qset dev') f_pos)"
    using lbs s(1) c by simp
  have ub: "length bs \<le> ubuf" using assms(8) by (simp add: bs_def)
  from read_stored[OF wf' pos' st cnt assms(3) k ub, of m']
  obtain r where r: "scull_read True dev' m' ubuf (int (length b)) f_pos = Some r"
    "r_retval r = int (length bs)" "r_buf r = bs" "r_pos r = f_pos + int (length bs)"
    by blast
  have full: "r_buf r = b"
    if "int (length b) \<le> quantum dev - spec_intra_offset (quantum dev) (qset dev) f_pos"
    using that s(1) r(3) by (simp add: bs_def)
  show ?thesis using r lbs s(1) full by (simp add: bs_def)
qed

theorem write_then_read_witness:
  "wf_dev \<lparr>data = [], quantum = 4, qset = 2, size_dev = 0\<rparr> \<and>
   pos_ok \<lparr>data = [], quantum = 4, qset = 2, size_dev = 0\<rparr> 1 \<and>
   scull_write True \<lparr>data = [], quantum = 4, qset = 2, size_dev = 0\<rparr> (\<lambda>_. True) ''AB'' 2 1 =
     Some \<lparr>w_retval = 2, w_pos = 3,
           w_dev = \<lparr>data = [Some [Some [CHR 0x00, CHR ''A'', CHR ''B'', CHR 0x00], None]],
                    quantum = 4, qset = 2, size_dev = 3\<rparr>,
           w_kmem = \<lambda>_. True\<rparr> \<and>
   run_ops \<lparr>data = [Some [Some [CHR 0x00, CHR ''A'', CHR ''B'', CHR 0x00], None]],
            quantum = 4, qset = 2, size_dev = 3\<rparr> (\<lambda>_. True)
      [Write True ''Z'' 1 10, Read True 4 4 0] =
     Some (\<lparr>data = [Some [Some [CHR 0x00, CHR ''A'', CHR ''B'', CHR 0x00], None],
                    Some [Some [CHR 0x00, CHR 0x00, CHR ''Z'', CHR 0x00], None]],
            quantum = 4, qset = 2, size_dev = 11\<rparr>, \<lambda>_. True) \<and>
   op_ok \<lparr>data = [], quantum = 4, qset = 2, size_dev = 0\<rparr> (Write True ''Z'' 1 10) \<and>
   \<not> write_overlaps (Write True ''Z'' 1 10) 1 (1 + 2) \<and>
   (\<exists>r. scull_read True
          \<lparr>data = [Some [Some [CHR 0x00, CHR ''A'', CHR ''B'', CHR 0x00], None],
                   Some [Some [CHR 0x00, CHR 0x00, CHR ''Z'', CHR 0x00], None]],
           quantum = 4, qset = 2, size_dev = 11\<rparr> (\<lambda>_. True) 2 2 1 = Some r \<and>
        r_retval r = 2 \<and> r_buf r = ''AB'' \<and> r_pos r = 3)"
proof -
  let ?d = "\<lparr>data = [], quantum = 4, qset = 2, size_dev = 0\<rparr>"
  let ?d1 = "\<lparr>data = [Some [Some [CHR 0x00, CHR ''A'', CHR ''B'', CHR 0x00], None]],
            quantum = 4, qset = 2, size_dev = 3\<rparr>"
  let ?d2 = "\<lparr>data = [Some [Some [CHR 0x00, CHR ''A'', CHR ''B'', CHR 0x00], None],
                    Some [Some [CHR 0x00, CHR 0x00, CHR ''Z'', CHR 0x00], None]],
            quantum = 4, qset = 2, size_dev = 11\<rparr>"
  let ?w = "\<lparr>w_retval = 2, w_pos = 3, w_dev = ?d1, w_kmem = \<lambda>_. True\<rparr>"
  let ?ops = "[Write True ''Z'' 1 10, Read True 4 4 0]"
  note eval_defs = scull_write_def scull_read_def scull_write_pos_def scull_read_pos_def
    scull_follow_def kzalloc_def write_slots_def write_quantum_def copy_from_user_def
    copy_to_user_def to_int_def to_long_def to_ulong_def signed_divide_int_def
    signed_modulo_int_def Let_def
  have wf: "wf_dev ?d" by (simp add: wf_dev_def cfg_ok_def)
  have pos: "pos_ok ?d 1" by (simp add: pos_ok_def)
  have w: "scull_write True ?d (\<lambda>_. True) ''AB'' (int (length ''AB'')) 1 = Some ?w"
    by (simp add: eval_defs numeral_2_eq_2)
  have run: "run_ops (w_dev ?w) (w_kmem ?w) ?ops = Some (?d2, \<lambda>_. True)"
    by (simp add: eval_defs numeral_2_eq_2)
  have ok: "\<forall>x \<in> set ?ops. op_ok ?d x \<and>
              \<not> write_overlaps x 1 (1 + int (length ''AB''))"
    by (simp add: pos_ok_def)
  have b: "(1::int) + int (length ''AB'') < 2 ^ 64" by simp
  have u: "length ''AB'' \<le> 2" by simp
  have r0: "0 < w_retval ?w" by simp
  from write_then_read[OF wf pos b w r0 run ok u]
  have "\<exists>r. scull_read True ?d2 (\<lambda>_. True) 2 2 1 = Some r \<and>
        r_retval r = 2 \<and> r_buf r = ''AB'' \<and> r_pos r = 3"
    by (auto simp: spec_intra_offset_def)
  moreover have "op_ok ?d (Write True ''Z'' 1 10)" by (simp add: pos_ok_def)
  moreover have "\<not> write_overlaps (Write True ''Z'' 1 10) 1 (1 + 2)" by simp
  ultimately show ?thesis using wf pos w run by simp
qed

end
